theory Spec2Isabelle
  imports Main "HOL-Library.Sublist" "HOL-Library.AList"
begin

section \<open>Python strings and POSIX paths\<close>

text \<open>
  A Python \<open>str\<close> is modelled as an Isabelle \<open>string\<close> holding the UTF-8 encoding of the
  text, so every character below 128 is one \<open>char\<close> and a character above it is a run of
  \<open>char\<close>s that are all at least 128.  The string methods used by
  \<^verbatim>\<open>abstract_django_testcase.py\<close> are written out below.
\<close>

datatype errno = EEXIST | ENOENT | ENOTDIR | EISDIR

datatype pyerr =
    ValueError
  | AssertionError
  | RecursionError
  | UnicodeDecodeError
  | TypeError
  | IndexError
  | SystemError
  | OSError errno

text \<open>\<^verbatim>\<open>s.find(sub)\<close>: the lowest index at which \<open>sub\<close> occurs in \<open>s\<close>, or \<open>-1\<close>.\<close>

fun find_from :: "string \<Rightarrow> string \<Rightarrow> nat \<Rightarrow> int" where
  "find_from sub [] i = (if sub = [] then int i else - 1)"
| "find_from sub (c # cs) i =
     (if prefix sub (c # cs) then int i else find_from sub cs (Suc i))"

definition py_find :: "string \<Rightarrow> string \<Rightarrow> int" where
  "py_find s sub = find_from sub s 0"

text \<open>
  \<^verbatim>\<open>s.replace(old, new)\<close>: every non-overlapping occurrence of \<open>old\<close>, scanning from the
  left, is replaced by \<open>new\<close>; an empty \<open>old\<close> matches before every character and at the end.
\<close>

function py_replace :: "string \<Rightarrow> string \<Rightarrow> string \<Rightarrow> string" where
  "py_replace old new [] = (if old = [] then new else [])"
| "py_replace old new (c # cs) =
     (if old = [] then new @ c # py_replace old new cs
      else if prefix old (c # cs)
        then new @ py_replace old new (drop (length old) (c # cs))
        else c # py_replace old new cs)"
  by pat_completeness auto
termination
  by (relation "measure (\<lambda>(old, new, s). length s)") auto

text \<open>\<^verbatim>\<open>s.split(sep)\<close> for a one-character separator.\<close>

fun py_split :: "char \<Rightarrow> string \<Rightarrow> string list" where
  "py_split sep [] = [[]]"
| "py_split sep (c # cs) =
     (if c = sep then [] # py_split sep cs
      else (case py_split sep cs of
              [] \<Rightarrow> [[c]]
            | w # ws \<Rightarrow> (c # w) # ws))"

text \<open>\<^verbatim>\<open>sep.join(xs)\<close>.\<close>

fun py_join :: "string \<Rightarrow> string list \<Rightarrow> string" where
  "py_join sep [] = []"
| "py_join sep [x] = x"
| "py_join sep (x # y # ys) = x @ sep @ py_join sep (y # ys)"

text \<open>
  \<^verbatim>\<open>posixpath.basename\<close> and \<^verbatim>\<open>posixpath.dirname\<close>: the path is cut after its last
  slash; \<open>dirname\<close> then strips the trailing slashes of the head unless the head is made of
  slashes only.
\<close>

definition basename :: "string \<Rightarrow> string" where
  "basename p = rev (takeWhile (\<lambda>c. c \<noteq> CHR ''/'') (rev p))"

definition rstrip_slash :: "string \<Rightarrow> string" where
  "rstrip_slash p = rev (dropWhile (\<lambda>c. c = CHR ''/'') (rev p))"

definition dirname :: "string \<Rightarrow> string" where
  "dirname p =
     (let head = rev (dropWhile (\<lambda>c. c \<noteq> CHR ''/'') (rev p))
      in if head \<noteq> [] \<and> head \<noteq> replicate (length head) CHR ''/''
         then rstrip_slash head else head)"

section \<open>Locating fixtures and result sets\<close>

text \<open>
  \<open>get_test_fixtures_dir\<close> reads and writes the class attribute \<open>_fixture_dir\<close>; the model
  takes the attribute and the file of the calling class (\<open>inspect.getfile(cls)\<close>) and returns
  the directory together with the new value of the attribute.  \<open>not cls._fixture_dir\<close> holds
  for \<open>None\<close> and for the empty string.
\<close>

definition get_test_fixtures_dir ::
    "string \<Rightarrow> string option \<Rightarrow> pyerr + (string \<times> string option)" where
  "get_test_fixtures_dir filename fixture_dir =
     (if fixture_dir = None \<or> fixture_dir = Some []
      then (let pos = py_find filename ''/tests''
            in if \<not> pos > 0 then Inl ValueError
               else (let d = take (nat pos) filename @ ''/tests/fixtures''
                     in Inr (d, Some d)))
      else (case fixture_dir of
              Some d \<Rightarrow> Inr (d, fixture_dir)
            | None \<Rightarrow> Inl ValueError))"

definition get_resultsets_dir ::
    "string \<Rightarrow> string option \<Rightarrow> pyerr + (string \<times> string option)" where
  "get_resultsets_dir filename fixture_dir =
     (case get_test_fixtures_dir filename fixture_dir of
        Inl e \<Rightarrow> Inl e
      | Inr (d, fd) \<Rightarrow> Inr (d @ ''/resultsets'', fd))"

text \<open>
  \<open>_get_test_subdir\<close>: the loop pops directory names from the front until it has popped
  \<open>tests\<close> or the list is empty.
\<close>

fun pop_until_tests :: "string list \<Rightarrow> string list" where
  "pop_until_tests [] = []"
| "pop_until_tests (d # ds) = (if d = ''tests'' then ds else pop_until_tests ds)"

definition get_test_subdir :: "string \<Rightarrow> string \<Rightarrow> string" where
  "get_test_subdir working_dir filename =
     py_join ''/''
       (pop_until_tests (py_split CHR ''/'' (dirname (py_replace working_dir [] filename))))"

text \<open>
  A frame of the call stack, as \<open>inspect.getouterframes\<close> lists it; \<open>frame[3]\<close> is the
  name of the function.  \<open>_get_calframe\<close> returns the first frame whose file name contains
  the name looked for.
\<close>

record frame =
  frame_filename :: string
  frame_function :: string

fun get_calframe :: "string \<Rightarrow> frame list \<Rightarrow> pyerr + frame" where
  "get_calframe test_filename [] = Inl ValueError"
| "get_calframe test_filename (f # fs) =
     (if py_find (frame_filename f) test_filename \<ge> 0 then Inr f
      else get_calframe test_filename fs)"

definition filename_noext :: "string \<Rightarrow> string" where
  "filename_noext filename = py_replace ''.py'' [] (basename filename)"

section \<open>Python values\<close>

text \<open>
  \<open>datetime.date\<close> and its subclass \<open>datetime.datetime\<close>.  The fields of a value built by
  Python satisfy \<open>valid_date\<close> and \<open>valid_time\<close>.
\<close>

record date =
  year :: nat
  month :: nat
  day :: nat

record datetime = date +
  hour :: nat
  minute :: nat
  second :: nat
  microsecond :: nat



text \<open>
  Decimal numerals, and the zero-padded fields of \<open>strftime\<close> (\<open>%Y\<close> as the four digits
  \<open>0001\<close> .. \<open>9999\<close> of the library's documentation, \<open>%m %d %H %M %S\<close> as two digits,
  \<open>%f\<close> as six).
\<close>

definition digit_char :: "nat \<Rightarrow> char" where
  "digit_char n = ''0123456789'' ! (n mod 10)"

fun show_nat :: "nat \<Rightarrow> string" where
  "show_nat n = (if n < 10 then [digit_char n] else show_nat (n div 10) @ [digit_char n])"

declare show_nat.simps [simp del]

definition show_int :: "int \<Rightarrow> string" where
  "show_int i = (if i < 0 then CHR ''-'' # show_nat (nat (- i)) else show_nat (nat i))"

definition zpad :: "nat \<Rightarrow> nat \<Rightarrow> string" where
  "zpad w n = replicate (w - length (show_nat n)) CHR ''0'' @ show_nat n"

definition strftime_date :: "'a date_scheme \<Rightarrow> string" where
  "strftime_date d = zpad 4 (year d) @ ''-'' @ zpad 2 (month d) @ ''-'' @ zpad 2 (day d)"

definition strftime_datetime :: "'a datetime_scheme \<Rightarrow> string" where
  "strftime_datetime t =
     zpad 4 (year t) @ ''-'' @ zpad 2 (month t) @ ''-'' @ zpad 2 (day t) @ '' '' @
     zpad 2 (hour t) @ '':'' @ zpad 2 (minute t) @ '':'' @ zpad 2 (second t) @ ''.'' @
     zpad 6 (microsecond t)"

text \<open>
  \<open>bytes.decode("utf-8")\<close>: the strict decoder accepts exactly the well-formed byte
  sequences of the Unicode standard and raises on anything else.  A \<open>str\<close> being held as
  its UTF-8 encoding, the decoded string of well-formed bytes is the same list of bytes.
\<close>

definition cont :: "nat \<Rightarrow> bool" where
  "cont b \<longleftrightarrow> 128 \<le> b \<and> b \<le> 191"

fun utf8_wf :: "nat list \<Rightarrow> bool" where
  "utf8_wf [] = True"
| "utf8_wf (b0 # bs) =
     (if b0 < 128 then utf8_wf bs
      else if 194 \<le> b0 \<and> b0 \<le> 223 then
        (case bs of b1 # r \<Rightarrow> cont b1 \<and> utf8_wf r | _ \<Rightarrow> False)
      else if 224 \<le> b0 \<and> b0 \<le> 239 then
        (case bs of
           b1 # b2 # r \<Rightarrow>
             (if b0 = 224 then 160 \<le> b1 \<and> b1 \<le> 191
              else if b0 = 237 then 128 \<le> b1 \<and> b1 \<le> 159
              else cont b1) \<and> cont b2 \<and> utf8_wf r
         | _ \<Rightarrow> False)
      else if 240 \<le> b0 \<and> b0 \<le> 244 then
        (case bs of
           b1 # b2 # b3 # r \<Rightarrow>
             (if b0 = 240 then 144 \<le> b1 \<and> b1 \<le> 191
              else if b0 = 244 then 128 \<le> b1 \<and> b1 \<le> 143
              else cont b1) \<and> cont b2 \<and> cont b3 \<and> utf8_wf r
         | _ \<Rightarrow> False)
      else False)"

definition decode_utf8 :: "string \<Rightarrow> string option" where
  "decode_utf8 b = (if utf8_wf (map of_char b) then Some b else None)"

text \<open>
  Values.  Numbers, strings, dates and the other immutable leaves are held directly; a
  \<open>dict\<close>, a \<open>list\<close> or a \<open>tuple\<close> is an object of the heap and a value refers to it by its
  address, so that two values can be the same object.  \<open>'d\<close> is \<open>decimal.Decimal\<close> and \<open>'f\<close>
  is \<open>float\<close>; \<open>VOther s\<close> stands for an object of any other type, \<open>s\<close> being its \<open>str()\<close>.
\<close>

datatype ('d, 'f) pyval =
    VNone
  | VBool bool
  | VInt int
  | VFloat 'f
  | VStr string
  | VDecimal 'd
  | VDateTime datetime
  | VDate date
  | VBytes string
  | VOther string
  | VRef nat

datatype ('d, 'f) pyobj =
    ODict "(('d, 'f) pyval \<times> ('d, 'f) pyval) list"
  | OList "('d, 'f) pyval list"
  | OTuple "('d, 'f) pyval list"

type_synonym ('d, 'f) heap = "('d, 'f) pyobj list"

definition deref :: "('d, 'f) heap \<Rightarrow> nat \<Rightarrow> ('d, 'f) pyobj option" where
  "deref h a = (if a < length h then Some (h ! a) else None)"

text \<open>
  The built-in conversions the module calls and does not define: \<open>float(d)\<close> of a
  \<open>Decimal\<close> (it raises \<open>ValueError\<close> on a signalling NaN, which is \<open>None\<close> here), the text
  \<open>json\<close> writes for a \<open>float\<close>, and \<open>str(o)\<close>.
\<close>

record ('d, 'f) builtins =
  py_float :: "'d \<Rightarrow> 'f option"
  float_repr :: "'f \<Rightarrow> string"
  py_str :: "('d, 'f) pyval \<Rightarrow> string"

section \<open>Normalisation: \<open>_to_json_dumpable\<close>\<close>

text \<open>
  The two loops of \<open>_to_json_dumpable\<close>.  \<open>f\<close> is the recursive call; it receives the heap
  and returns the heap it leaves.  Each step reads the entry from the object as it is at
  that moment and stores the result back into the same object.  Item assignment never
  changes the number of entries, so the iterator makes as many steps as the object had
  entries when the loop began (\<open>k\<close> counts the steps left).
\<close>

fun dict_loop ::
    "(('d, 'f) heap \<Rightarrow> ('d, 'f) pyval \<Rightarrow> pyerr + (('d, 'f) heap \<times> ('d, 'f) pyval)) \<Rightarrow>
     nat \<Rightarrow> nat \<Rightarrow> nat \<Rightarrow> ('d, 'f) heap \<Rightarrow> pyerr + ('d, 'f) heap" where
  "dict_loop f a i 0 h = Inr h"
| "dict_loop f a i (Suc k) h =
     (case deref h a of
        Some (ODict kvs) \<Rightarrow>
          if i < length kvs then
            (case f h (snd (kvs ! i)) of
               Inl e \<Rightarrow> Inl e
             | Inr (h', v') \<Rightarrow>
                 (case deref h' a of
                    Some (ODict kvs') \<Rightarrow>
                      dict_loop f a (Suc i) k
                        (h'[a := ODict (AList.update (fst (kvs ! i)) v' kvs')])
                  | _ \<Rightarrow> Inl SystemError))
          else Inr h
      | _ \<Rightarrow> Inl SystemError)"

fun list_loop ::
    "(('d, 'f) heap \<Rightarrow> ('d, 'f) pyval \<Rightarrow> pyerr + (('d, 'f) heap \<times> ('d, 'f) pyval)) \<Rightarrow>
     nat \<Rightarrow> nat \<Rightarrow> nat \<Rightarrow> ('d, 'f) heap \<Rightarrow> pyerr + ('d, 'f) heap" where
  "list_loop f a idx 0 h = Inr h"
| "list_loop f a idx (Suc k) h =
     (case deref h a of
        Some (OList xs) \<Rightarrow>
          if idx < length xs then
            (case f h (xs ! idx) of
               Inl e \<Rightarrow> Inl e
             | Inr (h', v') \<Rightarrow>
                 (case deref h' a of
                    Some (OList xs') \<Rightarrow>
                      if idx < length xs'
                      then list_loop f a (Suc idx) k (h'[a := OList (xs'[idx := v'])])
                      else Inl IndexError
                  | _ \<Rightarrow> Inl SystemError))
          else Inr h
      | _ \<Rightarrow> Inl SystemError)"

text \<open>
  \<open>_to_json_dumpable\<close>.  The first argument after the built-ins is the number of frames the
  interpreter still allows (\<open>sys.getrecursionlimit\<close>): a value nested deeper than that, or
  one that contains itself, ends in \<open>RecursionError\<close>.  The \<open>isinstance\<close> tests are taken in
  the order of the source (\<open>datetime\<close> before \<open>date\<close>).  \<open>list(data)\<close> allocates a new list
  at the end of the heap.  An address outside the heap cannot arise in Python and is
  \<open>SystemError\<close>.
\<close>

primrec to_json_dumpable ::
    "('d, 'f) builtins \<Rightarrow> nat \<Rightarrow> ('d, 'f) heap \<Rightarrow> ('d, 'f) pyval \<Rightarrow>
     pyerr + (('d, 'f) heap \<times> ('d, 'f) pyval)" where
  "to_json_dumpable B 0 = (\<lambda>h data. Inl RecursionError)"
| "to_json_dumpable B (Suc n) = (\<lambda>h data.
     case data of
       VDecimal d \<Rightarrow>
         (case py_float B d of None \<Rightarrow> Inl ValueError | Some x \<Rightarrow> Inr (h, VFloat x))
     | VDateTime t \<Rightarrow> Inr (h, VStr (strftime_datetime t))
     | VDate d \<Rightarrow> Inr (h, VStr (strftime_date d))
     | VBytes b \<Rightarrow>
         (case decode_utf8 b of None \<Rightarrow> Inl UnicodeDecodeError | Some s \<Rightarrow> Inr (h, VStr s))
     | VRef a \<Rightarrow>
         (case deref h a of
            None \<Rightarrow> Inl SystemError
          | Some (ODict kvs) \<Rightarrow>
              (case dict_loop (to_json_dumpable B n) a 0 (length kvs) h of
                 Inl e \<Rightarrow> Inl e
               | Inr h' \<Rightarrow> Inr (h', VRef a))
          | Some (OList xs) \<Rightarrow>
              (case list_loop (to_json_dumpable B n) a 0 (length xs) h of
                 Inl e \<Rightarrow> Inl e
               | Inr h' \<Rightarrow> Inr (h', VRef a))
          | Some (OTuple xs) \<Rightarrow> to_json_dumpable B n (h @ [OList xs]) (VRef (length h)))
     | _ \<Rightarrow> Inr (h, data))"

section \<open>Values without identity\<close>

text \<open>
  The value an expression denotes when the identity of its objects is forgotten: a finite
  tree.  A node is a list, a tuple or a dict; the node of a dict carries the keys, in the
  order of the dict, and its subtrees are the values in the same order.  \<open>snapshot m h v\<close>
  reads \<open>v\<close> in the heap \<open>h\<close> down to \<open>m\<close> levels and is \<open>None\<close> when the value is nested
  deeper than that (or contains itself).
\<close>

datatype ('d, 'f) kind = KList | KTuple | KDict "('d, 'f) pyval list"

datatype ('d, 'f) pytree =
    TLeaf "('d, 'f) pyval"
  | TNode "('d, 'f) kind" "('d, 'f) pytree list"

definition cell_kind :: "('d, 'f) pyobj \<Rightarrow> ('d, 'f) kind" where
  "cell_kind ob =
     (case ob of ODict kvs \<Rightarrow> KDict (map fst kvs) | OList xs \<Rightarrow> KList | OTuple xs \<Rightarrow> KTuple)"

definition cell_values :: "('d, 'f) pyobj \<Rightarrow> ('d, 'f) pyval list" where
  "cell_values ob =
     (case ob of ODict kvs \<Rightarrow> map snd kvs | OList xs \<Rightarrow> xs | OTuple xs \<Rightarrow> xs)"

primrec snapshot ::
    "nat \<Rightarrow> ('d, 'f) heap \<Rightarrow> ('d, 'f) pyval \<Rightarrow> ('d, 'f) pytree option" where
  "snapshot 0 = (\<lambda>h v. None)"
| "snapshot (Suc m) = (\<lambda>h v.
     case v of
       VRef a \<Rightarrow>
         (case deref h a of
            None \<Rightarrow> None
          | Some ob \<Rightarrow>
              map_option (TNode (cell_kind ob)) (those (map (snapshot m h) (cell_values ob))))
     | _ \<Rightarrow> Some (TLeaf v))"

text \<open>
  The normalisation table of the specification, written on trees: a decimal becomes a
  float, a date-time and a date their formatted strings, a byte string its decoded string;
  a list and a tuple become the list of their normalised elements; a mapping keeps its keys
  and has each value normalised; anything else is unchanged.  \<open>None\<close>: a conversion of a
  leaf raises.
\<close>

fun normalize_leaf :: "('d, 'f) builtins \<Rightarrow> ('d, 'f) pyval \<Rightarrow> ('d, 'f) pyval option" where
  "normalize_leaf B (VDecimal d) = map_option VFloat (py_float B d)"
| "normalize_leaf B (VDateTime t) = Some (VStr (strftime_datetime t))"
| "normalize_leaf B (VDate d) = Some (VStr (strftime_date d))"
| "normalize_leaf B (VBytes b) = map_option VStr (decode_utf8 b)"
| "normalize_leaf B v = Some v"

fun normalize_kind :: "('d, 'f) kind \<Rightarrow> ('d, 'f) kind" where
  "normalize_kind KTuple = KList"
| "normalize_kind k = k"

fun normalize_spec :: "('d, 'f) builtins \<Rightarrow> ('d, 'f) pytree \<Rightarrow> ('d, 'f) pytree option" where
  "normalize_spec B (TLeaf v) = map_option TLeaf (normalize_leaf B v)"
| "normalize_spec B (TNode k ts) =
     map_option (TNode (normalize_kind k)) (those (map (normalize_spec B) ts))"

text \<open>
  A heap as Python builds it: the keys of a dict are pairwise different, and every address
  held in an object is an address of the heap.
\<close>

definition in_heap :: "('d, 'f) heap \<Rightarrow> ('d, 'f) pyval \<Rightarrow> bool" where
  "in_heap h v = (case v of VRef a \<Rightarrow> a < length h | _ \<Rightarrow> True)"

definition distinct_keys :: "('d, 'f) pyobj \<Rightarrow> bool" where
  "distinct_keys ob = (case ob of ODict kvs \<Rightarrow> distinct (map fst kvs) | _ \<Rightarrow> True)"

definition wf_heap :: "('d, 'f) heap \<Rightarrow> bool" where
  "wf_heap h = list_all (\<lambda>ob. distinct_keys ob \<and> list_all (in_heap h) (cell_values ob)) h"

section \<open>\<open>json.dumps\<close>\<close>

text \<open>
  The encoder of the \<open>json\<close> module as the source calls it: \<open>ensure_ascii=False\<close> and
  \<open>default=str\<close>; the indentation and the two separators are arguments.  With
  \<open>ensure_ascii=False\<close> a string is written between double quotes with the quote, the
  backslash and the control characters below 32 escaped, and every other character as it
  is.
\<close>

definition hex_char :: "nat \<Rightarrow> char" where
  "hex_char n = ''0123456789abcdef'' ! (n mod 16)"

definition escape_char :: "char \<Rightarrow> string" where
  "escape_char c =
     (if c = CHR 0x22 then [CHR 0x5C, CHR 0x22]
      else if c = CHR 0x5C then [CHR 0x5C, CHR 0x5C]
      else if c = CHR 0x0A then [CHR 0x5C, CHR ''n'']
      else if c = CHR 0x0D then [CHR 0x5C, CHR ''r'']
      else if c = CHR 0x09 then [CHR 0x5C, CHR ''t'']
      else if c = CHR 0x08 then [CHR 0x5C, CHR ''b'']
      else if c = CHR 0x0C then [CHR 0x5C, CHR ''f'']
      else if (of_char c :: nat) < 32
        then [CHR 0x5C, CHR ''u'', CHR ''0'', CHR ''0'',
              hex_char (of_char c div 16), hex_char (of_char c)]
      else [c])"

definition encode_basestring :: "string \<Rightarrow> string" where
  "encode_basestring s = CHR 0x22 # concat (map escape_char s) @ [CHR 0x22]"

definition newline_indent :: "nat \<Rightarrow> nat \<Rightarrow> string" where
  "newline_indent indent level = CHR 0x0A # replicate (indent * level) CHR '' ''"

text \<open>
  The text of a dict key: a \<open>str\<close> as it is, a float, a bool, \<open>None\<close> and an int as their
  JSON text; any other key raises \<open>TypeError\<close>.
\<close>

fun key_text :: "('d, 'f) builtins \<Rightarrow> ('d, 'f) pyval \<Rightarrow> string option" where
  "key_text B (VStr s) = Some s"
| "key_text B (VFloat x) = Some (float_repr B x)"
| "key_text B (VBool b) = Some (if b then ''true'' else ''false'')"
| "key_text B VNone = Some ''null''"
| "key_text B (VInt i) = Some (show_int i)"
| "key_text B v = None"

fun encode_leaf :: "('d, 'f) builtins \<Rightarrow> ('d, 'f) pyval \<Rightarrow> string" where
  "encode_leaf B (VStr s) = encode_basestring s"
| "encode_leaf B VNone = ''null''"
| "encode_leaf B (VBool b) = (if b then ''true'' else ''false'')"
| "encode_leaf B (VInt i) = show_int i"
| "encode_leaf B (VFloat x) = float_repr B x"
| "encode_leaf B v = encode_basestring (py_str B v)"

text \<open>
  \<open>iterencode\<close>: an empty list is \<open>[]\<close> and an empty dict \<open>{}\<close>; otherwise every item
  starts on a line of its own, one level deeper, the items are joined by the item
  separator, and the closing bracket is on a line of its own at the level of the opening
  one.  A tuple is written as a list.  The items of a dict are written in the order of the
  dict, each as its key, the key separator and its value.  \<open>None\<close>: \<open>TypeError\<close>.
\<close>

definition bracketed ::
    "string \<Rightarrow> string \<Rightarrow> nat \<Rightarrow> string \<Rightarrow> nat \<Rightarrow> string list \<Rightarrow> string" where
  "bracketed opening closing indent isep level items =
     opening @ newline_indent indent (Suc level) @
     py_join (isep @ newline_indent indent (Suc level)) items @
     newline_indent indent level @ closing"

fun iterencode ::
    "('d, 'f) builtins \<Rightarrow> nat \<Rightarrow> string \<Rightarrow> string \<Rightarrow> nat \<Rightarrow> ('d, 'f) pytree \<Rightarrow> string option" where
  "iterencode B indent isep ksep level (TLeaf v) = Some (encode_leaf B v)"
| "iterencode B indent isep ksep level (TNode k ts) =
     (case those (map (iterencode B indent isep ksep (Suc level)) ts) of
        None \<Rightarrow> None
      | Some xs \<Rightarrow>
          (case k of
             KDict ks \<Rightarrow>
               (case those (map (key_text B) ks) of
                  None \<Rightarrow> None
                | Some names \<Rightarrow>
                    if ts = [] then Some ''{}''
                    else Some (bracketed ''{'' ''}'' indent isep level
                           (map2 (\<lambda>name x. encode_basestring name @ ksep @ x) names xs)))
           | _ \<Rightarrow>
               if ts = [] then Some ''[]''
               else Some (bracketed ''['' '']'' indent isep level xs)))"

text \<open>
  \<open>json.dumps(o, indent=..., separators=(isep, ksep), default=str, ensure_ascii=False)\<close>
  of a value of the heap; \<open>n\<close> is the recursion limit.
\<close>

definition json_dumps ::
    "('d, 'f) builtins \<Rightarrow> nat \<Rightarrow> nat \<Rightarrow> string \<Rightarrow> string \<Rightarrow> ('d, 'f) heap \<Rightarrow> ('d, 'f) pyval \<Rightarrow>
     pyerr + string" where
  "json_dumps B n indent isep ksep h v =
     (case snapshot n h v of
        None \<Rightarrow> Inl RecursionError
      | Some t \<Rightarrow>
          (case iterencode B indent isep ksep 0 t of
             None \<Rightarrow> Inl TypeError
           | Some s \<Rightarrow> Inr s))"

section \<open>The file system\<close>

text \<open>
  A file system maps a path, as the list of its non-empty segments, to a directory or to a
  file with its text; the empty list is the root directory.  Permissions are not
  modelled: the operations fail as POSIX does on a missing parent (\<open>ENOENT\<close>), on a file
  where a directory is needed (\<open>ENOTDIR\<close>), on a directory where a file is needed
  (\<open>EISDIR\<close>) and on a name that is taken (\<open>EEXIST\<close>).
\<close>

datatype node = File string | Dir

type_synonym filesystem = "string list \<Rightarrow> node option"

definition path_segs :: "string \<Rightarrow> string list" where
  "path_segs p = filter (\<lambda>s. s \<noteq> []) (py_split CHR ''/'' p)"

definition lookup :: "filesystem \<Rightarrow> string list \<Rightarrow> node option" where
  "lookup fs segs = (if segs = [] then Some Dir else fs segs)"

definition path_exists :: "filesystem \<Rightarrow> string \<Rightarrow> bool" where
  "path_exists fs p \<longleftrightarrow> p \<noteq> [] \<and> lookup fs (path_segs p) \<noteq> None"

definition is_file :: "node option \<Rightarrow> bool" where
  "is_file x = (case x of Some (File c) \<Rightarrow> True | _ \<Rightarrow> False)"

text \<open>\<open>os.makedirs(name)\<close>: creates the directory and every missing directory above it.\<close>

definition makedirs :: "string \<Rightarrow> filesystem \<Rightarrow> errno + filesystem" where
  "makedirs name fs =
     (let segs = path_segs name
      in if name = [] then Inl ENOENT
         else if lookup fs segs \<noteq> None then Inl EEXIST
         else if list_ex (\<lambda>p. is_file (lookup fs p)) (prefixes segs) then Inl ENOTDIR
         else Inr (fold (\<lambda>p fs. if lookup fs p = None then fs(p \<mapsto> Dir) else fs)
                     (prefixes segs) fs))"

text \<open>\<open>open(p, "w")\<close> followed by one write, \<open>open(p)\<close> followed by \<open>read()\<close>, and
  \<open>open(p, "a+")\<close> followed by one write.\<close>

definition write_file :: "string \<Rightarrow> string \<Rightarrow> filesystem \<Rightarrow> errno + filesystem" where
  "write_file p content fs =
     (if p = [] then Inl ENOENT
      else if last p = CHR ''/'' then Inl EISDIR
      else (case lookup fs (path_segs (dirname p)) of
              None \<Rightarrow> Inl ENOENT
            | Some (File c) \<Rightarrow> Inl ENOTDIR
            | Some Dir \<Rightarrow>
                (case lookup fs (path_segs p) of
                   Some Dir \<Rightarrow> Inl EISDIR
                 | _ \<Rightarrow> Inr (fs(path_segs p \<mapsto> File content)))))"

definition read_file :: "string \<Rightarrow> filesystem \<Rightarrow> errno + string" where
  "read_file p fs =
     (if p = [] then Inl ENOENT
      else (case lookup fs (path_segs p) of
              None \<Rightarrow> Inl ENOENT
            | Some Dir \<Rightarrow> Inl EISDIR
            | Some (File c) \<Rightarrow> Inr c))"

definition append_file :: "string \<Rightarrow> string \<Rightarrow> filesystem \<Rightarrow> errno + filesystem" where
  "append_file p content fs =
     (if p = [] then Inl ENOENT
      else if last p = CHR ''/'' then Inl EISDIR
      else (case lookup fs (path_segs (dirname p)) of
              None \<Rightarrow> Inl ENOENT
            | Some (File c) \<Rightarrow> Inl ENOTDIR
            | Some Dir \<Rightarrow>
                (case lookup fs (path_segs p) of
                   Some Dir \<Rightarrow> Inl EISDIR
                 | Some (File old) \<Rightarrow> Inr (fs(path_segs p \<mapsto> File (old @ content)))
                 | None \<Rightarrow> Inr (fs(path_segs p \<mapsto> File content)))))"

text \<open>
  \<open>_check_file_can_be_created\<close>: when the file does not exist, the directories of its
  directory name are created; \<open>EEXIST\<close> is swallowed and every other error is raised again.
\<close>

definition check_file_can_be_created :: "string \<Rightarrow> filesystem \<Rightarrow> pyerr + filesystem" where
  "check_file_can_be_created filename fs =
     (if \<not> path_exists fs filename then
        (case makedirs (dirname filename) fs of
           Inl e \<Rightarrow> if e \<noteq> EEXIST then Inl (OSError e) else Inr fs
         | Inr fs' \<Rightarrow> Inr fs')
      else Inr fs)"

section \<open>\<open>assert_equals_resultset\<close>\<close>

text \<open>
  What the method reads from its surroundings and does not change (\<open>env\<close>), and what it can
  change (\<open>world\<close>): the file system, the heap that holds the caller's value, the class
  attribute \<open>_fixture_dir\<close>, the lines printed and the commands given to \<open>os.system\<close>.
\<close>

record ('d, 'f) env =
  env_builtins :: "('d, 'f) builtins"
  recursion_limit :: nat
  root_dir :: string
  cls_file :: string
  stack :: "frame list"
  which :: "string \<Rightarrow> string option"

record ('d, 'f) world =
  files :: filesystem
  heap :: "('d, 'f) heap"
  fixture_dir :: "string option"
  stdout :: "string list"
  system_calls :: "string list"

text \<open>
  Lines 181 to 191: the name of the result set file.  The result is the file name used
  for the messages, the name of the calling method, the file name without extension, the
  result set file and the new \<open>_fixture_dir\<close>.
\<close>

definition resolve_resultset ::
    "('d, 'f) env \<Rightarrow> string option \<Rightarrow> string option \<Rightarrow>
     pyerr + (string \<times> string \<times> string \<times> string \<times> string option)" where
  "resolve_resultset E calling_filename fd =
     (let given = (case calling_filename of None \<Rightarrow> [] | Some c \<Rightarrow> c);
          filename = cls_file E
      in case get_calframe (if given = [] then cls_file E else given) (stack E) of
           Inl e \<Rightarrow> Inl e
         | Inr fr \<Rightarrow>
             (let method_name = frame_function fr;
                  sub_dir = get_test_subdir (root_dir E) filename;
                  filename' = (if given \<noteq> [] then given else filename);
                  noext = filename_noext filename'
              in case get_resultsets_dir (cls_file E) fd of
                   Inl e \<Rightarrow> Inl e
                 | Inr (rd, fd') \<Rightarrow>
                     Inr (filename', method_name, noext,
                          rd @ ''/'' @ sub_dir @ ''/'' @ noext @ ''/'' @ method_name @ ''.json'',
                          fd')))"

text \<open>
  Lines 192 to 202: the expected text.  A file that exists is read; a missing one is
  created with the text \<open>{}\<close> and the expected text is \<open>None\<close>.
\<close>

definition load_expected ::
    "string \<Rightarrow> filesystem \<Rightarrow> (pyerr + string option) \<times> filesystem" where
  "load_expected resultset_filename fs =
     (case check_file_can_be_created resultset_filename fs of
        Inl e \<Rightarrow> (Inl e, fs)
      | Inr fs1 \<Rightarrow>
          if path_exists fs1 resultset_filename then
            (case read_file resultset_filename fs1 of
               Inl e \<Rightarrow> (Inl (OSError e), fs1)
             | Inr text \<Rightarrow> (Inr (Some text), fs1))
          else
            (case write_file resultset_filename ''{}'' fs1 of
               Inl e \<Rightarrow> (Inl (OSError e), fs1)
             | Inr fs2 \<Rightarrow> (Inr None, fs2)))"

text \<open>Lines 204 to 214: the text of the actual value, and the heap the normalisation leaves.\<close>

definition serialize_actual ::
    "('d, 'f) builtins \<Rightarrow> nat \<Rightarrow> ('d, 'f) heap \<Rightarrow> ('d, 'f) pyval \<Rightarrow>
     (pyerr + string) \<times> ('d, 'f) heap" where
  "serialize_actual B n h actual =
     (case to_json_dumpable B n h actual of
        Inl e \<Rightarrow> (Inl e, h)
      | Inr (h', v) \<Rightarrow>
          (case json_dumps B n 4 '','' '': '' h' v of
             Inl e \<Rightarrow> (Inl e, h')
           | Inr s \<Rightarrow> (Inr (s @ [CHR 0x0A]), h')))"

text \<open>Lines 231 to 241: the line for the log of diff commands.\<close>

definition diff_command :: "(string \<Rightarrow> string option) \<Rightarrow> string \<Rightarrow> string \<Rightarrow> string" where
  "diff_command wh resultset_filename tmp_actual_filename =
     (if wh ''charm'' \<noteq> None then
        ''charm diff '' @ resultset_filename @ '' '' @ tmp_actual_filename @ [CHR 0x0A]
      else if wh ''pycharm-community'' \<noteq> None then
        ''pycharm-community diff '' @ resultset_filename @ '' '' @ tmp_actual_filename @ [CHR 0x0A]
      else if wh ''meld'' \<noteq> None then
        ''meld '' @ tmp_actual_filename @ '' '' @ resultset_filename @ [CHR 0x0A]
      else if wh ''code'' \<noteq> None then
        ''code -d '' @ tmp_actual_filename @ '' '' @ resultset_filename @ [CHR 0x0A]
      else [])"

definition tmp_actual_filename :: "string \<Rightarrow> string \<Rightarrow> string \<Rightarrow> string" where
  "tmp_actual_filename working_dir noext method_name =
     working_dir @ ''/.donotcommit_tmp/'' @ noext @ ''-'' @ method_name @ ''_ACTUAL.json''"

definition diff_cmd_log :: "string \<Rightarrow> string" where
  "diff_cmd_log working_dir = working_dir @ ''/.donotcommit_tmp_diff_cmd''"

text \<open>
  Lines 218 to 247, the handler of the failed comparison: the result is the exception
  that leaves the method and the world it leaves.
\<close>

definition report_mismatch ::
    "('d, 'f) env \<Rightarrow> string \<Rightarrow> string \<Rightarrow> string \<Rightarrow> string \<Rightarrow> string \<Rightarrow> ('d, 'f) world \<Rightarrow>
     pyerr \<times> ('d, 'f) world" where
  "report_mismatch E filename method_name noext resultset_filename actual_json w =
     (let working_dir = root_dir E;
          tmp = tmp_actual_filename working_dir noext method_name
      in case check_file_can_be_created tmp (files w) of
           Inl e \<Rightarrow> (e, w)
         | Inr fs1 \<Rightarrow>
             (case write_file tmp actual_json fs1 of
                Inl e \<Rightarrow> (OSError e, w\<lparr>files := fs1\<rparr>)
              | Inr fs2 \<Rightarrow>
                  (case append_file (diff_cmd_log working_dir)
                          (diff_command (which E) resultset_filename tmp) fs2 of
                     Inl e \<Rightarrow> (OSError e, w\<lparr>files := fs2\<rparr>)
                   | Inr fs3 \<Rightarrow>
                       (AssertionError,
                        w\<lparr>files := fs3,
                          stdout := stdout w @
                            [CHR 0x0A # CHR 0x1B # ''[1;31m=== TEST '' @ method_name @ '' has failed !!'',
                             ''file: '' @ py_replace working_dir [] filename,
                             ''=== TEST '' @ method_name @ [CHR 0x0A, CHR 0x1B] @ ''[0m''],
                          system_calls := system_calls w @
                            [''diff '' @ resultset_filename @ '' '' @ tmp]\<rparr>))))"

text \<open>
  The method.  The first component of the result is \<open>None\<close> when the method returns and
  the exception when it raises.
\<close>

definition assert_equals_resultset ::
    "('d, 'f) env \<Rightarrow> ('d, 'f) pyval \<Rightarrow> string option \<Rightarrow> ('d, 'f) world \<Rightarrow>
     pyerr option \<times> ('d, 'f) world" where
  "assert_equals_resultset E actual calling_filename w =
     (case resolve_resultset E calling_filename (fixture_dir w) of
        Inl e \<Rightarrow> (Some e, w)
      | Inr (filename, method_name, noext, resultset_filename, fd) \<Rightarrow>
          (let w1 = w\<lparr>fixture_dir := fd\<rparr>
           in case load_expected resultset_filename (files w1) of
                (Inl e, fs) \<Rightarrow> (Some e, w1\<lparr>files := fs\<rparr>)
              | (Inr expected, fs) \<Rightarrow>
                  (let w2 = w1\<lparr>files := fs\<rparr>
                   in case serialize_actual (env_builtins E) (recursion_limit E) (heap w2) actual of
                        (Inl e, h) \<Rightarrow> (Some e, w2\<lparr>heap := h\<rparr>)
                      | (Inr actual_json, h) \<Rightarrow>
                          (let w3 = w2\<lparr>heap := h\<rparr>
                           in if expected = Some actual_json then (None, w3)
                              else (case report_mismatch E filename method_name noext
                                           resultset_filename actual_json w3 of
                                      (e, w4) \<Rightarrow> (Some e, w4))))))"

section \<open>Notions used to state the properties\<close>




text \<open>
  Built-ins for the examples: decimals and floats that are whole numbers, \<open>float\<close> exact
  on them.
\<close>

definition example_builtins :: "(int, int) builtins" where
  "example_builtins =
     \<lparr>py_float = (\<lambda>d. Some d),
      float_repr = (\<lambda>x. show_int x @ ''.0''),
      py_str = (\<lambda>v. case v of VOther s \<Rightarrow> s | _ \<Rightarrow> [])\<rparr>"

text \<open>
  \<open>partly_normalized B t t'\<close>: \<open>t'\<close> is \<open>t\<close> with some of its subtrees replaced by their
  normal forms.  This is how the value of an object changes while the loops run: an
  entry that has been visited is normalised, the others are as they were.
\<close>

inductive partly_normalized ::
    "('d, 'f) builtins \<Rightarrow> ('d, 'f) pytree \<Rightarrow> ('d, 'f) pytree \<Rightarrow> bool" for B where
  pn_refl: "partly_normalized B t t"
| pn_norm: "normalize_spec B t = Some t' \<Longrightarrow> partly_normalized B t t'"
| pn_node: "list_all2 (partly_normalized B) ts ts' \<Longrightarrow>
            partly_normalized B (TNode k ts) (TNode k ts')"
  monos list_all2_mono

definition normal_form ::
    "('d, 'f) builtins \<Rightarrow> ('d, 'f) pytree \<Rightarrow> ('d, 'f) pytree \<Rightarrow> bool" where
  "normal_form B t t' \<longleftrightarrow> normalize_spec B t = Some t'"

text \<open>
  \<open>val_rel R h v h' v'\<close>: at every depth, \<open>v\<close> in \<open>h\<close> and \<open>v'\<close> in \<open>h'\<close> are both too deep
  to read, or both are read and their trees are related by \<open>R\<close>.
\<close>

definition val_rel ::
    "(('d, 'f) pytree \<Rightarrow> ('d, 'f) pytree \<Rightarrow> bool) \<Rightarrow>
     ('d, 'f) heap \<Rightarrow> ('d, 'f) pyval \<Rightarrow> ('d, 'f) heap \<Rightarrow> ('d, 'f) pyval \<Rightarrow> bool" where
  "val_rel R h v h' v' \<longleftrightarrow> (\<forall>m. rel_option R (snapshot m h v) (snapshot m h' v'))"

text \<open>
  \<open>heap_frame B h h'\<close>: what earlier calls leave of a heap.  No object is lost, every
  object keeps its kind (and a dict its keys), every entry has advanced towards its normal
  form, and a tuple is the object it was.
\<close>

definition heap_frame :: "('d, 'f) builtins \<Rightarrow> ('d, 'f) heap \<Rightarrow> ('d, 'f) heap \<Rightarrow> bool" where
  "heap_frame B h h' \<longleftrightarrow>
     length h \<le> length h' \<and>
     (\<forall>a<length h.
        cell_kind (h' ! a) = cell_kind (h ! a) \<and>
        list_all2 (\<lambda>x x'. val_rel (partly_normalized B) h x h' x')
          (cell_values (h ! a)) (cell_values (h' ! a)) \<and>
        (cell_kind (h ! a) = KTuple \<longrightarrow> h' ! a = h ! a))"

text \<open>
  What is proved of a call \<open>f\<close> of the normalisation: the heap stays well formed, the
  earlier heap is framed, and the result is the normal form of the argument
  (\<open>sound_call\<close>); the argument can be read at depth \<open>m\<close> (\<open>readable_call\<close>).
  \<open>loop_post\<close> is what a loop that visits the entries \<open>i\<close> to \<open>i + k - 1\<close> of the object
  at \<open>a\<close> establishes.
\<close>

definition sound_call ::
    "('d, 'f) builtins \<Rightarrow>
     (('d, 'f) heap \<Rightarrow> ('d, 'f) pyval \<Rightarrow> pyerr + (('d, 'f) heap \<times> ('d, 'f) pyval)) \<Rightarrow> bool" where
  "sound_call B f \<longleftrightarrow>
     (\<forall>h v h' v'. f h v = Inr (h', v') \<longrightarrow> wf_heap h \<longrightarrow> in_heap h v \<longrightarrow>
        wf_heap h' \<and> in_heap h' v' \<and> heap_frame B h h' \<and> val_rel (normal_form B) h v h' v')"

definition readable_call ::
    "nat \<Rightarrow> (('d, 'f) heap \<Rightarrow> ('d, 'f) pyval \<Rightarrow> pyerr + (('d, 'f) heap \<times> ('d, 'f) pyval)) \<Rightarrow> bool" where
  "readable_call m f \<longleftrightarrow>
     (\<forall>h v h' v'. f h v = Inr (h', v') \<longrightarrow> wf_heap h \<longrightarrow> in_heap h v \<longrightarrow> snapshot m h v \<noteq> None)"

definition loop_post ::
    "('d, 'f) builtins \<Rightarrow> nat \<Rightarrow> nat \<Rightarrow> nat \<Rightarrow> ('d, 'f) heap \<Rightarrow> ('d, 'f) heap \<Rightarrow> bool" where
  "loop_post B a i k h h' \<longleftrightarrow>
     wf_heap h' \<and> heap_frame B h h' \<and>
     (\<forall>j. i \<le> j \<and> j < i + k \<and> j < length (cell_values (h ! a)) \<longrightarrow>
        val_rel (normal_form B) h (cell_values (h ! a) ! j) h' (cell_values (h' ! a) ! j))"

text \<open>
  A value is convertible when it can be read within \<open>m\<close> levels and the table gives its
  tree a normal form (every decimal has a float, every byte string decodes).  A call is
  complete when it returns on every such value.
\<close>

definition complete_call ::
    "('d, 'f) builtins \<Rightarrow> nat \<Rightarrow>
     (('d, 'f) heap \<Rightarrow> ('d, 'f) pyval \<Rightarrow> pyerr + (('d, 'f) heap \<times> ('d, 'f) pyval)) \<Rightarrow> bool" where
  "complete_call B m f \<longleftrightarrow>
     (\<forall>h v t t'. snapshot m h v = Some t \<longrightarrow> normalize_spec B t = Some t' \<longrightarrow> wf_heap h \<longrightarrow>
        (\<exists>h' v'. f h v = Inr (h', v')))"

definition convertible ::
    "('d, 'f) builtins \<Rightarrow> nat \<Rightarrow> ('d, 'f) heap \<Rightarrow> ('d, 'f) pyval \<Rightarrow> bool" where
  "convertible B m h v \<longleftrightarrow>
     (\<exists>t t'. snapshot m h v = Some t \<and> normalize_spec B t = Some t')"

text \<open>
  A tree in which nothing is left to normalise: no decimal, date or byte string, and no
  tuple.
\<close>

fun fully_normalized :: "('d, 'f) pytree \<Rightarrow> bool" where
  "fully_normalized (TLeaf v) =
     (case v of VDecimal d \<Rightarrow> False | VDateTime t \<Rightarrow> False | VDate d \<Rightarrow> False
      | VBytes b \<Rightarrow> False | _ \<Rightarrow> True)"
| "fully_normalized (TNode k ts) \<longleftrightarrow> k \<noteq> KTuple \<and> list_all fully_normalized ts"

text \<open>An example: a list that holds a decimal, a dict and a tuple, the tuple shared.\<close>

definition example_heap :: "(int, int) heap" where
  "example_heap =
     [OList [VDecimal 3, VRef 1, VRef 2],
      ODict [(VStr ''when'', VDate \<lparr>year = 2024, month = 2, day = 29\<rparr>), (VInt 1, VRef 2)],
      OTuple [VBytes ''ab'', VNone]]"

definition example_heap_normalized :: "(int, int) heap" where
  "example_heap_normalized =
     [OList [VFloat 3, VRef 1, VRef 4],
      ODict [(VStr ''when'', VStr ''2024-02-29''), (VInt 1, VRef 3)],
      OTuple [VBytes ''ab'', VNone],
      OList [VStr ''ab'', VNone],
      OList [VStr ''ab'', VNone]]"

text \<open>The example read as a tree, and its normal form.\<close>

definition example_tree :: "(int, int) pytree" where
  "example_tree =
     TNode KList
       [TLeaf (VDecimal 3),
        TNode (KDict [VStr ''when'', VInt 1])
          [TLeaf (VDate \<lparr>year = 2024, month = 2, day = 29\<rparr>),
           TNode KTuple [TLeaf (VBytes ''ab''), TLeaf VNone]],
        TNode KTuple [TLeaf (VBytes ''ab''), TLeaf VNone]]"

definition example_tree_normalized :: "(int, int) pytree" where
  "example_tree_normalized =
     TNode KList
       [TLeaf (VFloat 3),
        TNode (KDict [VStr ''when'', VInt 1])
          [TLeaf (VStr ''2024-02-29''),
           TNode KList [TLeaf (VStr ''ab''), TLeaf VNone]],
        TNode KList [TLeaf (VStr ''ab''), TLeaf VNone]]"

text \<open>A project in \<open>/p\<close> with one test, \<open>meld\<close> installed, and nothing on disk yet.\<close>

definition example_env :: "(int, int) env" where
  "example_env =
     \<lparr>env_builtins = example_builtins, recursion_limit = 20, root_dir = ''/p'',
      cls_file = ''/p/app/tests/unit/test_foo.py'',
      stack = [\<lparr>frame_filename = ''/lib/abstract_django_testcase.py'',
                frame_function = ''_get_calframe''\<rparr>,
               \<lparr>frame_filename = ''/lib/abstract_django_testcase.py'',
                frame_function = ''assert_equals_resultset''\<rparr>,
               \<lparr>frame_filename = ''/p/app/tests/unit/test_foo.py'',
                frame_function = ''test_a''\<rparr>],
      which = (\<lambda>tool. if tool = ''meld'' then Some ''/usr/bin/meld'' else None)\<rparr>"

definition example_resultset :: string where
  "example_resultset = ''/p/app/tests/fixtures/resultsets/unit/test_foo/test_a.json''"


text \<open>
  The snapshot of the specification, \<open>{"a": 1}\<close> on three lines, with the world in which
  it is on disk; and a world whose snapshot is that of \<open>["a"]\<close> while the actual value is
  \<open>[b"a"]\<close>.
\<close>

definition example_text :: string where
  "example_text =
     ''{'' @ [CHR 0x0A] @ ''    '' @ [CHR 0x22] @ ''a'' @ [CHR 0x22] @ '': 1'' @ [CHR 0x0A] @
     ''}'' @ [CHR 0x0A]"

definition matching_world :: "(int, int) world" where
  "matching_world =
     \<lparr>files = map_of
        [(path_segs example_resultset, File example_text),
         (path_segs (dirname example_resultset), Dir)],
      heap = [ODict [(VStr ''a'', VInt 1)]],
      fixture_dir = Some ''/p/app/tests/fixtures'', stdout = [], system_calls = []\<rparr>"

definition mutating_world :: "(int, int) world" where
  "mutating_world =
     \<lparr>files = map_of
        [(path_segs example_resultset,
          File (''['' @ [CHR 0x0A] @ ''    '' @ [CHR 0x22] @ ''a'' @ [CHR 0x22, CHR 0x0A] @
                '']'' @ [CHR 0x0A])),
         (path_segs (dirname example_resultset), Dir)],
      heap = [OList [VBytes ''a'']],
      fixture_dir = Some ''/p/app/tests/fixtures'', stdout = [], system_calls = []\<rparr>"




section \<open>Properties of the path functions\<close>

lemma find_from_ge: "find_from sub s i = - 1 \<or> int i \<le> find_from sub s i"
  by (induction s arbitrary: i) (auto, force)

lemma find_from_none: "find_from sub s i = - 1 \<longleftrightarrow> \<not> sublist sub s"
proof (induction s arbitrary: i)
  case Nil
  then show ?case by auto
next
  case (Cons c cs)
  show ?case
  proof (cases "prefix sub (c # cs)")
    case True
    then show ?thesis by (auto dest: prefix_imp_sublist)
  next
    case False
    then show ?thesis using Cons[of "Suc i"] by (auto simp: sublist_Cons_right)
  qed
qed

lemma py_find_none: "py_find s sub = - 1 \<longleftrightarrow> \<not> sublist sub s"
  by (simp add: py_find_def find_from_none)

lemma py_find_zero: "py_find s sub = 0 \<longleftrightarrow> prefix sub s"
  unfolding py_find_def
  using find_from_ge[of sub "tl s" 1]
  by (cases s) auto

text \<open>
  With no cached directory, \<open>get_test_fixtures_dir\<close> raises exactly when \<open>/tests\<close> does not
  occur in the file name or occurs at its very start; otherwise the directory is the text
  before the first occurrence followed by \<open>/tests/fixtures\<close>.
\<close>

lemma fixtures_dir_fails_iff:
  "get_test_fixtures_dir f None = Inl ValueError \<longleftrightarrow>
     \<not> sublist ''/tests'' f \<or> prefix ''/tests'' f"
proof -
  have "py_find f ''/tests'' = - 1 \<or> 0 \<le> py_find f ''/tests''"
    unfolding py_find_def using find_from_ge[of "''/tests''" f 0] by simp
  then show ?thesis
    using py_find_none[of f "''/tests''"] py_find_zero[of f "''/tests''"]
    by (auto simp: get_test_fixtures_dir_def Let_def)
qed

lemma fixtures_dir_value:
  "0 < py_find f ''/tests'' \<Longrightarrow>
   get_test_fixtures_dir f None =
     Inr (take (nat (py_find f ''/tests'')) f @ ''/tests/fixtures'',
          Some (take (nat (py_find f ''/tests'')) f @ ''/tests/fixtures''))"
  by (simp add: get_test_fixtures_dir_def Let_def)

text \<open>
  C6.  The marker \<open>/tests\<close> is located in \<open>/tests/test_foo.py\<close>, at index 0, and resolving
  the fixtures directory of that file still raises \<open>ValueError\<close>: the test \<open>not pos > 0\<close>
  takes the index 0 for a failed search.
\<close>

theorem fixtures_dir_marker_at_start:
  "sublist ''/tests'' ''/tests/test_foo.py'' \<and>
   py_find ''/tests/test_foo.py'' ''/tests'' = 0 \<and>
   get_test_fixtures_dir ''/tests/test_foo.py'' None = Inl ValueError"
  by (simp add: get_test_fixtures_dir_def py_find_def sublist_Cons_right)

lemma py_replace_empty_old: "py_replace [] [] s = s"
  by (induction s) auto

lemma py_replace_absent: "old \<noteq> [] \<Longrightarrow> \<not> sublist old s \<Longrightarrow> py_replace old new s = s"
proof (induction s)
  case Nil
  then show ?case by simp
next
  case (Cons c cs)
  then show ?case by (auto simp: sublist_Cons_right)
qed

lemma py_replace_at_front:
  "old \<noteq> [] \<Longrightarrow> py_replace old new (old @ s) = new @ py_replace old new s"
  by (cases old) auto

lemma strip_root:
  assumes "\<not> sublist root rest"
  shows "py_replace root [] (root @ rest) = rest"
proof (cases "root = []")
  case True
  then show ?thesis by (simp add: py_replace_empty_old)
next
  case False
  then show ?thesis using assms by (simp add: py_replace_at_front py_replace_absent)
qed

text \<open>
  For a root directory whose text does not occur again in \<open>/app/tests/unit/test_foo.py\<close>,
  the sub-directory of \<open>root/app/tests/unit/test_foo.py\<close> is \<open>unit\<close>; the file segment is
  \<open>test_foo\<close> for every root.
\<close>

lemma subdir_example:
  assumes "\<not> sublist root ''/app/tests/unit/test_foo.py''"
  shows "get_test_subdir root (root @ ''/app/tests/unit/test_foo.py'') = ''unit''"
  using strip_root[OF assms]
  by (simp add: get_test_subdir_def dirname_def rstrip_slash_def)

lemma noext_example: "filename_noext (root @ ''/app/tests/unit/test_foo.py'') = ''test_foo''"
  by (simp add: filename_noext_def basename_def)

text \<open>
  C7.  With the project in \<open>/unit\<close>, the caller \<open>/unit/app/tests/unit/test_foo.py\<close> gets the
  empty sub-directory and the result set file
  \<open>/unit/app/tests/fixtures/resultsets//test_foo/test_a.json\<close>: \<open>replace\<close> removes the text
  of the root everywhere in the path, not only at its start.
\<close>

theorem subdir_root_occurs_twice:
  "get_test_subdir ''/unit'' (''/unit'' @ ''/app/tests/unit/test_foo.py'') = [] \<and>
   resolve_resultset
     \<lparr>env_builtins = B, recursion_limit = n, root_dir = ''/unit'',
      cls_file = ''/unit/app/tests/unit/test_foo.py'',
      stack = [\<lparr>frame_filename = ''/unit/app/tests/unit/test_foo.py'',
                frame_function = ''test_a''\<rparr>],
      which = wh\<rparr> None None =
   Inr (''/unit/app/tests/unit/test_foo.py'', ''test_a'', ''test_foo'',
        ''/unit/app/tests/fixtures/resultsets//test_foo/test_a.json'',
        Some ''/unit/app/tests/fixtures'')"
  by (simp add: get_test_subdir_def dirname_def rstrip_slash_def resolve_resultset_def
      py_find_def filename_noext_def basename_def get_resultsets_dir_def
      get_test_fixtures_dir_def Let_def)

section \<open>Properties of the leaves\<close>













section \<open>Normal forms of trees\<close>

lemma those_map_Some:
  "those (map f xs) = Some ys \<longleftrightarrow> list_all2 (\<lambda>x y. f x = Some y) xs ys"
proof (induction xs arbitrary: ys)
  case Nil
  then show ?case by auto
next
  case (Cons x xs)
  then show ?case by (cases ys) (auto split: option.splits)
qed

lemma those_rel:
  "list_all2 (\<lambda>x y. rel_option R (f x) (g y)) xs ys \<Longrightarrow>
   rel_option (list_all2 R) (those (map f xs)) (those (map g ys))"
proof (induction xs ys rule: list_all2_induct)
  case Nil
  then show ?case by simp
next
  case (Cons x xs y ys)
  then show ?case
    by (cases "f x"; cases "g y"; cases "those (map f xs)"; cases "those (map g ys)") auto
qed

lemma normalize_node_Some:
  "normalize_spec B (TNode k ts) = Some t' \<longleftrightarrow>
     (\<exists>ts'. t' = TNode (normalize_kind k) ts' \<and>
            list_all2 (\<lambda>t t'. normalize_spec B t = Some t') ts ts')"
  by (auto simp: those_map_Some)

lemma normalize_kind_idem: "normalize_kind (normalize_kind k) = normalize_kind k"
  by (cases k) auto

lemma normalize_leaf_idem: "normalize_leaf B v = Some v' \<Longrightarrow> normalize_leaf B v' = Some v'"
  by (cases v) auto

lemma normalize_spec_idem:
  "normalize_spec B t = Some t' \<Longrightarrow> normalize_spec B t' = Some t'"
proof (induction t arbitrary: t')
  case (TLeaf v)
  then show ?case by (auto dest: normalize_leaf_idem)
next
  case (TNode k ts)
  from TNode.prems obtain ts' where t': "t' = TNode (normalize_kind k) ts'"
    and all: "list_all2 (\<lambda>t t'. normalize_spec B t = Some t') ts ts'"
    using iffD1[OF normalize_node_Some TNode.prems] by blast
  have "list_all2 (\<lambda>t t'. normalize_spec B t = Some t') ts' ts'"
    unfolding list_all2_conv_all_nth
  proof (intro conjI allI impI)
    fix i assume i: "i < length ts'"
    then have "ts ! i \<in> set ts" using all by (simp add: list_all2_lengthD)
    moreover have "normalize_spec B (ts ! i) = Some (ts' ! i)"
      using all i by (simp add: list_all2_conv_all_nth)
    ultimately show "normalize_spec B (ts' ! i) = Some (ts' ! i)" by (rule TNode.IH)
  qed simp
  then show ?case unfolding t' by (simp add: those_map_Some normalize_kind_idem)
qed

lemma pn_same_normal_form:
  "partly_normalized B t t' \<Longrightarrow> normalize_spec B t' = normalize_spec B t"
proof (induction rule: partly_normalized.induct)
  case (pn_refl t)
  then show ?case by simp
next
  case (pn_norm t t')
  then show ?case by (simp add: normalize_spec_idem)
next
  case (pn_node ts ts' k)
  then have "map (normalize_spec B) ts' = map (normalize_spec B) ts"
    by (induction ts ts' rule: list_all2_induct) auto
  then show ?case by simp
qed

lemma pn_of_normal:
  "partly_normalized B t t' \<Longrightarrow> normalize_spec B t = Some t \<Longrightarrow> t' = t"
proof (induction rule: partly_normalized.induct)
  case (pn_refl t)
  then show ?case by simp
next
  case (pn_norm t t')
  then show ?case by simp
next
  case (pn_node ts ts' k)
  have fixed: "list_all2 (\<lambda>t t'. normalize_spec B t = Some t') ts ts"
    using iffD1[OF normalize_node_Some pn_node.prems] by auto
  have "ts' = ts"
  proof (rule nth_equalityI)
    show "length ts' = length ts" using pn_node.IH by (simp add: list_all2_lengthD)
  next
    fix i assume "i < length ts'"
    then show "ts' ! i = ts ! i"
      using pn_node.IH fixed by (auto simp: list_all2_conv_all_nth)
  qed
  then show ?case by simp
qed

lemma pn_trans:
  "partly_normalized B t t' \<Longrightarrow> partly_normalized B t' t'' \<Longrightarrow> partly_normalized B t t''"
proof (induction arbitrary: t'' rule: partly_normalized.induct)
  case (pn_refl t)
  then show ?case by simp
next
  case (pn_norm t t')
  then have "t'' = t'" by (auto dest: pn_of_normal normalize_spec_idem)
  with pn_norm show ?case by (auto intro: partly_normalized.pn_norm)
next
  case (pn_node ts ts' k)
  have step: "partly_normalized B (TNode k ts) (TNode k ts')"
    by (rule partly_normalized.pn_node) (rule list_all2_mono[OF pn_node.IH], simp)
  from pn_node.prems show ?case
  proof (cases rule: partly_normalized.cases)
    case pn_refl
    then show ?thesis using step by simp
  next
    case pn_norm
    then show ?thesis using pn_same_normal_form[OF step]
      by (auto intro: partly_normalized.pn_norm)
  next
    case (pn_node us')
    then have "list_all2 (partly_normalized B) ts us'"
      using pn_node.IH by (auto simp: list_all2_conv_all_nth)
    with pn_node show ?thesis by (auto intro: partly_normalized.pn_node)
  qed
qed

section \<open>Heaps that earlier calls have changed\<close>

lemma snapshot_leaf: "(\<And>a. v \<noteq> VRef a) \<Longrightarrow> snapshot (Suc m) h v = Some (TLeaf v)"
  by (cases v) auto

lemma snapshot_ref:
  "a < length h \<Longrightarrow>
   snapshot (Suc m) h (VRef a) =
     map_option (TNode (cell_kind (h ! a))) (those (map (snapshot m h) (cell_values (h ! a))))"
  by (simp add: deref_def)

lemma snapshot_ref_rel:
  assumes "a < length h" "a' < length h'"
    and "list_all2 (\<lambda>x x'. rel_option R (snapshot m h x) (snapshot m h' x'))
           (cell_values (h ! a)) (cell_values (h' ! a'))"
    and "\<And>ts ts'. list_all2 R ts ts' \<Longrightarrow>
           Q (TNode (cell_kind (h ! a)) ts) (TNode (cell_kind (h' ! a')) ts')"
  shows "rel_option Q (snapshot (Suc m) h (VRef a)) (snapshot (Suc m) h' (VRef a'))"
proof -
  have "rel_option (list_all2 R) (those (map (snapshot m h) (cell_values (h ! a))))
          (those (map (snapshot m h') (cell_values (h' ! a'))))"
    using assms(3) by (rule those_rel)
  then have "rel_option Q
      (map_option (TNode (cell_kind (h ! a))) (those (map (snapshot m h) (cell_values (h ! a)))))
      (map_option (TNode (cell_kind (h' ! a')))
         (those (map (snapshot m h') (cell_values (h' ! a')))))"
    using assms(4) by (auto simp: option.rel_map elim!: option.rel_mono_strong)
  then show ?thesis
    by (simp only: snapshot_ref[OF assms(1)] snapshot_ref[OF assms(2)])
qed

lemma val_rel_trans:
  assumes "val_rel R h v h' v'" "val_rel S h' v' h'' v''"
    and "\<And>x y z. R x y \<Longrightarrow> S y z \<Longrightarrow> T x z"
  shows "val_rel T h v h'' v''"
  unfolding val_rel_def
proof
  fix m
  have "rel_option R (snapshot m h v) (snapshot m h' v')"
    and "rel_option S (snapshot m h' v') (snapshot m h'' v'')"
    using assms(1,2) by (simp_all add: val_rel_def)
  then show "rel_option T (snapshot m h v) (snapshot m h'' v'')"
    using assms(3)
    by (cases "snapshot m h v"; cases "snapshot m h' v'"; cases "snapshot m h'' v''") auto
qed

lemma val_rel_same: "(\<And>t. R t t) \<Longrightarrow> val_rel R h v h v"
  by (simp add: val_rel_def option.rel_refl)

lemma heap_frame_val:
  assumes "heap_frame B h h'" "in_heap h v"
  shows "val_rel (partly_normalized B) h v h' v"
  unfolding val_rel_def
proof
  fix m
  show "rel_option (partly_normalized B) (snapshot m h v) (snapshot m h' v)"
  proof (cases m)
    case 0
    then show ?thesis by simp
  next
    case (Suc m')
    show ?thesis
    proof (cases v)
      case (VRef a)
      with assms have a: "a < length h" "a < length h'"
        and k: "cell_kind (h' ! a) = cell_kind (h ! a)"
        and c: "list_all2 (\<lambda>x x'. val_rel (partly_normalized B) h x h' x')
                  (cell_values (h ! a)) (cell_values (h' ! a))"
        by (auto simp: heap_frame_def in_heap_def)
      have "list_all2 (\<lambda>x x'. rel_option (partly_normalized B) (snapshot m' h x) (snapshot m' h' x'))
              (cell_values (h ! a)) (cell_values (h' ! a))"
        by (rule list_all2_mono[OF c]) (simp add: val_rel_def)
      then show ?thesis unfolding Suc VRef
        using a k by (intro snapshot_ref_rel) (auto intro: pn_node)
    qed (simp_all add: Suc pn_refl)
  qed
qed

lemma heap_frame_refl: "heap_frame B h h"
  by (auto simp: heap_frame_def list_all2_same intro: val_rel_same pn_refl)

lemma heap_frame_trans:
  assumes "heap_frame B h h'" "heap_frame B h' h''"
  shows "heap_frame B h h''"
  unfolding heap_frame_def
proof (intro conjI allI impI)
  show "length h \<le> length h''" using assms by (simp add: heap_frame_def)
next
  fix a assume a: "a < length h"
  then have a': "a < length h'" using assms(1) by (simp add: heap_frame_def)
  show "cell_kind (h'' ! a) = cell_kind (h ! a)"
    using assms a a' by (simp add: heap_frame_def)
  have 1: "list_all2 (\<lambda>x x'. val_rel (partly_normalized B) h x h' x')
             (cell_values (h ! a)) (cell_values (h' ! a))"
    using assms(1) a by (simp add: heap_frame_def)
  have 2: "list_all2 (\<lambda>x x'. val_rel (partly_normalized B) h' x h'' x')
             (cell_values (h' ! a)) (cell_values (h'' ! a))"
    using assms(2) a' by (simp add: heap_frame_def)
  show "list_all2 (\<lambda>x x'. val_rel (partly_normalized B) h x h'' x')
          (cell_values (h ! a)) (cell_values (h'' ! a))"
    by (rule list_all2_trans[OF _ 1 2]) (erule (1) val_rel_trans, erule (1) pn_trans)
next
  fix a assume a: "a < length h" and t: "cell_kind (h ! a) = KTuple"
  then have a': "a < length h'" using assms(1) by (simp add: heap_frame_def)
  have "h' ! a = h ! a" using assms(1) a t by (simp add: heap_frame_def)
  moreover have "h'' ! a = h' ! a" using assms a a' t by (simp add: heap_frame_def)
  ultimately show "h'' ! a = h ! a" by simp
qed

lemma wf_heap_cell:
  "wf_heap h \<Longrightarrow> a < length h \<Longrightarrow> x \<in> set (cell_values (h ! a)) \<Longrightarrow> in_heap h x"
  by (auto simp: wf_heap_def list_all_iff)

lemma snapshot_append:
  "wf_heap h \<Longrightarrow> in_heap h v \<Longrightarrow> snapshot m (h @ [ob]) v = snapshot m h v"
proof (induction m arbitrary: v)
  case 0
  then show ?case by simp
next
  case (Suc m)
  show ?case
  proof (cases v)
    case (VRef a)
    with Suc.prems have a: "a < length h" by (simp add: in_heap_def)
    have "map (snapshot m (h @ [ob])) (cell_values (h ! a)) =
          map (snapshot m h) (cell_values (h ! a))"
    proof (rule map_cong[OF refl])
      fix x assume "x \<in> set (cell_values (h ! a))"
      then have "in_heap h x" using Suc.prems(1) a by (rule wf_heap_cell[rotated 2])
      with Suc.prems(1) show "snapshot m (h @ [ob]) x = snapshot m h x" by (rule Suc.IH)
    qed
    moreover have "a < length (h @ [ob])" "(h @ [ob]) ! a = h ! a"
      using a by (simp_all add: nth_append)
    ultimately show ?thesis
      using a by (simp only: VRef snapshot_ref)
  qed simp_all
qed

lemma heap_frame_alloc:
  assumes "wf_heap h"
  shows "heap_frame B h (h @ [ob])"
  unfolding heap_frame_def
proof (intro conjI allI impI)
  fix a assume a: "a < length h"
  have "val_rel (partly_normalized B) h x (h @ [ob]) x"
    if "x \<in> set (cell_values (h ! a))" for x
  proof -
    have "in_heap h x" using assms a that by (rule wf_heap_cell)
    then show ?thesis
      using assms by (simp add: val_rel_def snapshot_append option.rel_refl pn_refl)
  qed
  then show "list_all2 (\<lambda>x x'. val_rel (partly_normalized B) h x (h @ [ob]) x')
          (cell_values (h ! a)) (cell_values ((h @ [ob]) ! a))"
    using a by (simp add: nth_append list_all2_same)
qed (simp_all add: nth_append)

lemma in_heap_mono: "in_heap h v \<Longrightarrow> length h \<le> length h' \<Longrightarrow> in_heap h' v"
  by (cases v) (auto simp: in_heap_def)

lemma rel_option_trans:
  "rel_option R x y \<Longrightarrow> rel_option S y z \<Longrightarrow> (\<And>a b c. R a b \<Longrightarrow> S b c \<Longrightarrow> T a c) \<Longrightarrow>
   rel_option T x z"
  by (cases x; cases y; cases z) auto

lemma write_val:
  assumes wf: "wf_heap h" and a: "a < length h" and i: "i < length (cell_values (h ! a))"
    and k: "cell_kind ob' = cell_kind (h ! a)"
    and vs: "cell_values ob' = (cell_values (h ! a))[i := v']"
    and v': "in_heap h v'"
    and rel: "val_rel (partly_normalized B) h (cell_values (h ! a) ! i) h v'"
  shows "in_heap h v \<Longrightarrow>
         rel_option (partly_normalized B) (snapshot m h v) (snapshot m (h[a := ob']) v)"
proof (induction m arbitrary: v)
  case 0
  then show ?case by simp
next
  case (Suc m)
  let ?h2 = "h[a := ob']"
  show ?case
  proof (cases v)
    case (VRef b)
    with Suc.prems have b: "b < length h" by (simp add: in_heap_def)
    have kids: "list_all2 (\<lambda>x x'. rel_option (partly_normalized B) (snapshot m h x) (snapshot m ?h2 x'))
                  (cell_values (h ! b)) (cell_values (?h2 ! b))"
    proof (cases "b = a")
      case False
      have "rel_option (partly_normalized B) (snapshot m h x) (snapshot m ?h2 x)"
        if "x \<in> set (cell_values (h ! b))" for x
        using wf_heap_cell[OF wf b that] by (rule Suc.IH)
      then show ?thesis using False by (simp add: list_all2_same)
    next
      case True
      show ?thesis unfolding list_all2_conv_all_nth
      proof (intro conjI allI impI)
        show "length (cell_values (h ! b)) = length (cell_values (?h2 ! b))"
          using True a vs by simp
      next
        fix j assume j: "j < length (cell_values (h ! b))"
        then have inh: "in_heap h (cell_values (h ! b) ! j)"
          using wf b by (auto intro: wf_heap_cell)
        show "rel_option (partly_normalized B) (snapshot m h (cell_values (h ! b) ! j))
                (snapshot m ?h2 (cell_values (?h2 ! b) ! j))"
        proof (cases "j = i")
          case False
          then show ?thesis using True a vs inh by (simp add: Suc.IH)
        next
          case j_i: True
          have "rel_option (partly_normalized B) (snapshot m h (cell_values (h ! a) ! i))
                  (snapshot m h v')"
            using rel by (simp add: val_rel_def)
          moreover have "rel_option (partly_normalized B) (snapshot m h v') (snapshot m ?h2 v')"
            using v' by (rule Suc.IH)
          ultimately have "rel_option (partly_normalized B)
              (snapshot m h (cell_values (h ! a) ! i)) (snapshot m ?h2 v')"
            by (rule rel_option_trans) (rule pn_trans)
          then show ?thesis using True j_i a vs i by simp
        qed
      qed
    qed
    have "cell_kind (?h2 ! b) = cell_kind (h ! b)"
      using a k by (cases "b = a") simp_all
    then show ?thesis unfolding VRef
      using b kids by (intro snapshot_ref_rel) (auto intro: pn_node)
  qed (simp_all add: pn_refl)
qed

lemma heap_frame_write:
  assumes wf: "wf_heap h" and a: "a < length h" and i: "i < length (cell_values (h ! a))"
    and k: "cell_kind ob' = cell_kind (h ! a)"
    and vs: "cell_values ob' = (cell_values (h ! a))[i := v']"
    and v': "in_heap h v'"
    and rel: "val_rel (partly_normalized B) h (cell_values (h ! a) ! i) h v'"
    and nt: "cell_kind (h ! a) \<noteq> KTuple"
  shows "heap_frame B h (h[a := ob'])"
  unfolding heap_frame_def
proof (intro conjI allI impI)
  let ?h2 = "h[a := ob']"
  note wv = write_val[OF wf a i k vs v' rel]
  fix b assume b: "b < length h"
  show "cell_kind (?h2 ! b) = cell_kind (h ! b)"
    using a k by (cases "b = a") simp_all
  show "list_all2 (\<lambda>x x'. val_rel (partly_normalized B) h x ?h2 x')
          (cell_values (h ! b)) (cell_values (?h2 ! b))"
    unfolding list_all2_conv_all_nth
  proof (intro conjI allI impI)
    show "length (cell_values (h ! b)) = length (cell_values (?h2 ! b))"
      using a vs by (cases "b = a") simp_all
  next
    fix j assume j: "j < length (cell_values (h ! b))"
    then have inh: "in_heap h (cell_values (h ! b) ! j)"
      using wf b by (auto intro: wf_heap_cell)
    show "val_rel (partly_normalized B) h (cell_values (h ! b) ! j) ?h2 (cell_values (?h2 ! b) ! j)"
    proof (cases "b = a \<and> j = i")
      case False
      then have "cell_values (?h2 ! b) ! j = cell_values (h ! b) ! j"
        using a vs by (cases "b = a") auto
      then show ?thesis using wv[OF inh] by (simp add: val_rel_def)
    next
      case True
      have "val_rel (partly_normalized B) h v' ?h2 v'"
        using wv[OF v'] by (simp add: val_rel_def)
      with rel have "val_rel (partly_normalized B) h (cell_values (h ! a) ! i) ?h2 v'"
        by (rule val_rel_trans) (rule pn_trans)
      then show ?thesis using True a vs i by simp
    qed
  qed
  assume "cell_kind (h ! b) = KTuple"
  then show "?h2 ! b = h ! b" using nt by (cases "b = a") auto
qed simp

lemma wf_heap_write:
  assumes "wf_heap h" "a < length h" "in_heap h v'"
    and "cell_values ob' = (cell_values (h ! a))[i := v']" "distinct_keys ob'"
  shows "wf_heap (h[a := ob'])"
proof -
  have "list_all (in_heap h) (cell_values ob')"
    using assms by (auto simp: list_all_iff dest!: set_update_subset_insert[THEN subsetD]
                         intro: wf_heap_cell)
  moreover have "in_heap (h[a := ob']) = in_heap h"
    by (rule ext) (simp add: in_heap_def split: pyval.splits)
  ultimately show ?thesis
    using assms(1,5) by (auto simp: wf_heap_def list_all_iff dest!: set_update_subset_insert[THEN subsetD])
qed

lemma wf_heap_alloc:
  assumes "wf_heap h" "list_all (in_heap h) (cell_values ob)" "distinct_keys ob"
  shows "wf_heap (h @ [ob])"
proof -
  have "in_heap (h @ [ob]) x" if "in_heap h x" for x
    using that by (rule in_heap_mono) simp
  then show ?thesis using assms by (auto simp: wf_heap_def list_all_iff)
qed

lemma catch_up:
  assumes "val_rel (partly_normalized B) h x h1 x1" "val_rel (normal_form B) h x h1 v'"
  shows "val_rel (partly_normalized B) h1 x1 h1 v'"
  unfolding val_rel_def
proof
  fix m
  have 1: "rel_option (partly_normalized B) (snapshot m h x) (snapshot m h1 x1)"
    and 2: "rel_option (normal_form B) (snapshot m h x) (snapshot m h1 v')"
    using assms by (simp_all add: val_rel_def)
  show "rel_option (partly_normalized B) (snapshot m h1 x1) (snapshot m h1 v')"
  proof (cases "snapshot m h x")
    case None
    then show ?thesis using 1 2 by (cases "snapshot m h1 x1"; cases "snapshot m h1 v'") auto
  next
    case (Some t)
    then obtain t1 t' where s: "snapshot m h1 x1 = Some t1" "snapshot m h1 v' = Some t'"
      and r: "partly_normalized B t t1" "normalize_spec B t = Some t'"
      using 1 2 by (cases "snapshot m h1 x1"; cases "snapshot m h1 v'") (auto simp: normal_form_def)
    then have "partly_normalized B t1 t'"
      using pn_same_normal_form[OF r(1)] by (auto intro: pn_norm)
    then show ?thesis using s by simp
  qed
qed

lemma nf_then_pn:
  "normal_form B t t' \<Longrightarrow> partly_normalized B t' t'' \<Longrightarrow> normal_form B t t''"
  unfolding normal_form_def by (auto dest: pn_of_normal normalize_spec_idem)

lemma pn_then_nf:
  "partly_normalized B t t' \<Longrightarrow> normal_form B t' t'' \<Longrightarrow> normal_form B t t''"
  unfolding normal_form_def by (auto dest: pn_same_normal_form)

section \<open>The loops\<close>

lemma heap_frame_cell:
  "heap_frame B h h' \<Longrightarrow> a < length h \<Longrightarrow>
   list_all2 (\<lambda>x x'. val_rel (partly_normalized B) h x h' x')
     (cell_values (h ! a)) (cell_values (h' ! a))"
  by (simp add: heap_frame_def)

lemma heap_frame_length: "heap_frame B h h' \<Longrightarrow> length h \<le> length h'"
  by (simp add: heap_frame_def)

lemma heap_frame_kind: "heap_frame B h h' \<Longrightarrow> a < length h \<Longrightarrow> cell_kind (h' ! a) = cell_kind (h ! a)"
  by (simp add: heap_frame_def)

lemma loop_step:
  assumes f: "sound_call B f" and wf: "wf_heap h" and a: "a < length h"
    and i: "i < length (cell_values (h ! a))"
    and call: "f h (cell_values (h ! a) ! i) = Inr (h1, v')"
    and k: "cell_kind ob' = cell_kind (h1 ! a)"
    and vs: "cell_values ob' = (cell_values (h1 ! a))[i := v']"
    and dk: "distinct_keys ob'"
    and nt: "cell_kind (h ! a) \<noteq> KTuple"
  shows "wf_heap (h1[a := ob'])" and "heap_frame B h (h1[a := ob'])"
    and "val_rel (normal_form B) h (cell_values (h ! a) ! i)
           (h1[a := ob']) (cell_values ((h1[a := ob']) ! a) ! i)"
proof -
  let ?x = "cell_values (h ! a) ! i"
  have "in_heap h ?x" using wf a i by (auto intro: wf_heap_cell)
  with f call wf have wf1: "wf_heap h1" and v': "in_heap h1 v'" and F1: "heap_frame B h h1"
    and N1: "val_rel (normal_form B) h ?x h1 v'"
    unfolding sound_call_def by blast+
  have a1: "a < length h1" using heap_frame_length[OF F1] a by simp
  have len: "length (cell_values (h1 ! a)) = length (cell_values (h ! a))"
    using heap_frame_cell[OF F1 a] by (simp add: list_all2_lengthD)
  have A1: "val_rel (partly_normalized B) h ?x h1 (cell_values (h1 ! a) ! i)"
    using heap_frame_cell[OF F1 a] i by (simp add: list_all2_conv_all_nth)
  have C: "val_rel (partly_normalized B) h1 (cell_values (h1 ! a) ! i) h1 v'"
    using A1 N1 by (rule catch_up)
  have nt1: "cell_kind (h1 ! a) \<noteq> KTuple" using heap_frame_kind[OF F1 a] nt by simp
  have i1: "i < length (cell_values (h1 ! a))" using i len by simp
  have F2: "heap_frame B h1 (h1[a := ob'])"
    using wf1 a1 i1 k vs v' C nt1 by (rule heap_frame_write)
  show "wf_heap (h1[a := ob'])" using wf1 a1 v' vs dk by (rule wf_heap_write)
  show "heap_frame B h (h1[a := ob'])" using F1 F2 by (rule heap_frame_trans)
  have "val_rel (partly_normalized B) h1 v' (h1[a := ob']) v'"
    using F2 v' by (rule heap_frame_val)
  with N1 have "val_rel (normal_form B) h ?x (h1[a := ob']) v'"
    by (rule val_rel_trans) (rule nf_then_pn)
  then show "val_rel (normal_form B) h ?x (h1[a := ob']) (cell_values ((h1[a := ob']) ! a) ! i)"
    using a1 i1 vs by simp
qed

lemma loop_post_done: "wf_heap h \<Longrightarrow> loop_post B a i 0 h h"
  by (auto simp: loop_post_def heap_frame_refl)

lemma loop_post_past: "wf_heap h \<Longrightarrow> \<not> i < length (cell_values (h ! a)) \<Longrightarrow> loop_post B a i k h h"
  by (auto simp: loop_post_def heap_frame_refl)

lemma loop_post_step:
  assumes a: "a < length h" and F: "heap_frame B h h2"
    and N: "val_rel (normal_form B) h (cell_values (h ! a) ! i) h2 (cell_values (h2 ! a) ! i)"
    and rest: "loop_post B a (Suc i) k h2 h'"
  shows "loop_post B a i (Suc k) h h'"
  unfolding loop_post_def
proof (intro conjI allI impI)
  from rest have wf': "wf_heap h'" and F': "heap_frame B h2 h'"
    and N': "\<And>j. Suc i \<le> j \<Longrightarrow> j < Suc i + k \<Longrightarrow> j < length (cell_values (h2 ! a)) \<Longrightarrow>
        val_rel (normal_form B) h2 (cell_values (h2 ! a) ! j) h' (cell_values (h' ! a) ! j)"
    by (simp_all add: loop_post_def)
  show "wf_heap h'" by (rule wf')
  show "heap_frame B h h'" using F F' by (rule heap_frame_trans)
  have a2: "a < length h2" using heap_frame_length[OF F] a by simp
  have len: "length (cell_values (h2 ! a)) = length (cell_values (h ! a))"
    using heap_frame_cell[OF F a] by (simp add: list_all2_lengthD)
  fix j assume j: "i \<le> j \<and> j < i + Suc k \<and> j < length (cell_values (h ! a))"
  show "val_rel (normal_form B) h (cell_values (h ! a) ! j) h' (cell_values (h' ! a) ! j)"
  proof (cases "j = i")
    case True
    have "val_rel (partly_normalized B) h2 (cell_values (h2 ! a) ! i) h' (cell_values (h' ! a) ! i)"
      using heap_frame_cell[OF F' a2] j len True by (simp add: list_all2_conv_all_nth)
    with N show ?thesis unfolding True by (rule val_rel_trans) (rule nf_then_pn)
  next
    case False
    have "val_rel (partly_normalized B) h (cell_values (h ! a) ! j) h2 (cell_values (h2 ! a) ! j)"
      using heap_frame_cell[OF F a] j by (simp add: list_all2_conv_all_nth)
    moreover have "val_rel (normal_form B) h2 (cell_values (h2 ! a) ! j) h' (cell_values (h' ! a) ! j)"
      using False j len by (intro N') simp_all
    ultimately show ?thesis by (rule val_rel_trans) (rule pn_then_nf)
  qed
qed

lemma list_loop_sound:
  assumes f: "sound_call B f"
  shows "list_loop f a i k h = Inr h' \<Longrightarrow> wf_heap h \<Longrightarrow> loop_post B a i k h h'"
proof (induction k arbitrary: i h)
  case 0
  then show ?case by (simp add: loop_post_done)
next
  case (Suc k)
  from Suc.prems(1) obtain xs where d: "deref h a = Some (OList xs)"
    by (auto split: option.splits pyobj.splits)
  then have a: "a < length h" and ha: "h ! a = OList xs"
    by (auto simp: deref_def split: if_splits)
  have cv: "cell_values (h ! a) = xs" and ck: "cell_kind (h ! a) = KList"
    by (simp_all add: ha cell_values_def cell_kind_def)
  show ?case
  proof (cases "i < length xs")
    case False
    with Suc.prems d have "h' = h" by simp
    then show ?thesis using Suc.prems(2) False cv by (simp add: loop_post_past)
  next
    case True
    with Suc.prems(1) d obtain h1 v' xs1 where call: "f h (xs ! i) = Inr (h1, v')"
      and d1: "deref h1 a = Some (OList xs1)" and i1: "i < length xs1"
      and rest: "list_loop f a (Suc i) k (h1[a := OList (xs1[i := v'])]) = Inr h'"
      by (auto split: sum.splits option.splits pyobj.splits if_splits)
    from d1 have h1a: "h1 ! a = OList xs1" by (auto simp: deref_def split: if_splits)
    let ?ob = "OList (xs1[i := v'])"
    have ob1: "cell_kind ?ob = cell_kind (h1 ! a)"
      by (simp add: h1a cell_kind_def)
    have ob2: "cell_values ?ob = (cell_values (h1 ! a))[i := v']"
      by (simp add: h1a cell_values_def)
    have ob3: "distinct_keys ?ob" by (simp add: distinct_keys_def)
    have i': "i < length (cell_values (h ! a))" using True cv by simp
    have call': "f h (cell_values (h ! a) ! i) = Inr (h1, v')" using call cv by simp
    have nt: "cell_kind (h ! a) \<noteq> KTuple" using ck by simp
    note step = loop_step[OF f Suc.prems(2) a i' call' ob1 ob2 ob3 nt]
    have "loop_post B a (Suc i) k (h1[a := ?ob]) h'"
      using rest step(1) by (rule Suc.IH)
    with a step(2,3) show ?thesis by (rule loop_post_step)
  qed
qed

lemma update_at:
  "distinct (map fst kvs) \<Longrightarrow> i < length kvs \<Longrightarrow>
   AList.update (fst (kvs ! i)) v kvs = kvs[i := (fst (kvs ! i), v)]"
proof (induction kvs arbitrary: i)
  case Nil
  then show ?case by simp
next
  case (Cons kv kvs)
  show ?case
  proof (cases i)
    case 0
    then show ?thesis by (cases kv) simp
  next
    case (Suc j)
    have j: "j < length kvs" using Cons.prems(2) Suc by simp
    then have "kvs ! j \<in> set kvs" by simp
    then have "fst (kvs ! j) \<in> fst ` set kvs" by (rule imageI)
    moreover have "fst kv \<notin> fst ` set kvs" and d: "distinct (map fst kvs)"
      using Cons.prems(1) by simp_all
    ultimately have "fst (kvs ! j) \<noteq> fst kv" by metis
    then show ?thesis using Cons.IH[OF d j] Suc by (cases kv) auto
  qed
qed

lemma dict_loop_sound:
  assumes f: "sound_call B f"
  shows "dict_loop f a i k h = Inr h' \<Longrightarrow> wf_heap h \<Longrightarrow> loop_post B a i k h h'"
proof (induction k arbitrary: i h)
  case 0
  then show ?case by (simp add: loop_post_done)
next
  case (Suc k)
  from Suc.prems(1) obtain kvs where d: "deref h a = Some (ODict kvs)"
    by (auto split: option.splits pyobj.splits)
  then have a: "a < length h" and ha: "h ! a = ODict kvs"
    by (auto simp: deref_def split: if_splits)
  have cv: "cell_values (h ! a) = map snd kvs" and ck: "cell_kind (h ! a) = KDict (map fst kvs)"
    by (simp_all add: ha cell_values_def cell_kind_def)
  show ?case
  proof (cases "i < length kvs")
    case False
    with Suc.prems d have "h' = h" by simp
    then show ?thesis using Suc.prems(2) False cv by (simp add: loop_post_past)
  next
    case True
    with Suc.prems(1) d obtain h1 v' kvs1 where call: "f h (snd (kvs ! i)) = Inr (h1, v')"
      and d1: "deref h1 a = Some (ODict kvs1)"
      and rest: "dict_loop f a (Suc i) k
                   (h1[a := ODict (AList.update (fst (kvs ! i)) v' kvs1)]) = Inr h'"
      by (auto split: sum.splits option.splits pyobj.splits if_splits)
    from d1 have a1: "a < length h1" and h1a: "h1 ! a = ODict kvs1"
      by (auto simp: deref_def split: if_splits)
    have "in_heap h (snd (kvs ! i))"
      using wf_heap_cell[OF Suc.prems(2) a, of "snd (kvs ! i)"] True cv by simp
    with f call Suc.prems(2) have wf1: "wf_heap h1" and F1: "heap_frame B h h1"
      unfolding sound_call_def by blast+
    have keys: "map fst kvs1 = map fst kvs"
      using heap_frame_kind[OF F1 a] by (simp add: ha h1a cell_kind_def)
    then have len1: "length kvs1 = length kvs" by (metis length_map)
    have key: "fst (kvs1 ! i) = fst (kvs ! i)"
      using keys True len1 by (metis nth_map)
    have "distinct (map fst kvs1)"
      using wf1 a1 h1a by (auto simp: wf_heap_def list_all_iff distinct_keys_def dest!: nth_mem)
    then have upd: "AList.update (fst (kvs ! i)) v' kvs1 = kvs1[i := (fst (kvs1 ! i), v')]"
      using True len1 key update_at[of kvs1 i v'] by simp
    let ?ob = "ODict (AList.update (fst (kvs ! i)) v' kvs1)"
    have same_keys: "(map fst kvs1)[i := fst (kvs1 ! i)] = map fst kvs1"
      using True len1 by (simp add: list_update_same_conv)
    have ob1: "cell_kind ?ob = cell_kind (h1 ! a)"
      unfolding upd by (simp add: h1a cell_kind_def map_update same_keys)
    have ob2: "cell_values ?ob = (cell_values (h1 ! a))[i := v']"
      unfolding upd by (simp add: h1a cell_values_def map_update)
    have ob3: "distinct_keys ?ob"
      using \<open>distinct (map fst kvs1)\<close> unfolding upd
      by (simp add: distinct_keys_def map_update same_keys)
    have i': "i < length (cell_values (h ! a))" using True cv by simp
    have call': "f h (cell_values (h ! a) ! i) = Inr (h1, v')" using call True cv by simp
    have nt: "cell_kind (h ! a) \<noteq> KTuple" using ck by simp
    note step = loop_step[OF f Suc.prems(2) a i' call' ob1 ob2 ob3 nt]
    have "loop_post B a (Suc i) k (h1[a := ?ob]) h'"
      using rest step(1) by (rule Suc.IH)
    with a step(2,3) show ?thesis by (rule loop_post_step)
  qed
qed

section \<open>The normalisation computes the normal form\<close>

lemma leaf_rel:
  assumes "\<And>a. v \<noteq> VRef a" "\<And>a. v' \<noteq> VRef a" "normalize_leaf B v = Some v'"
  shows "val_rel (normal_form B) h v h' v'"
  unfolding val_rel_def
proof
  fix m
  show "rel_option (normal_form B) (snapshot m h v) (snapshot m h' v')"
  proof (cases m)
    case 0
    then show ?thesis by simp
  next
    case (Suc m')
    have "snapshot m h v = Some (TLeaf v)" unfolding Suc by (rule snapshot_leaf) (rule assms(1))
    moreover have "snapshot m h' v' = Some (TLeaf v')"
      unfolding Suc by (rule snapshot_leaf) (rule assms(2))
    ultimately show ?thesis using assms(3) by (simp add: normal_form_def)
  qed
qed

lemma container_normalized:
  assumes a: "a < length h"
    and post: "loop_post B a 0 (length (cell_values (h ! a))) h h'"
    and nt: "cell_kind (h ! a) \<noteq> KTuple"
  shows "val_rel (normal_form B) h (VRef a) h' (VRef a)"
  unfolding val_rel_def
proof
  fix m
  from post have F: "heap_frame B h h'"
    and N: "\<And>j. j < length (cell_values (h ! a)) \<Longrightarrow>
       val_rel (normal_form B) h (cell_values (h ! a) ! j) h' (cell_values (h' ! a) ! j)"
    by (simp_all add: loop_post_def)
  have a': "a < length h'" using heap_frame_length[OF F] a by simp
  have len: "length (cell_values (h' ! a)) = length (cell_values (h ! a))"
    using heap_frame_cell[OF F a] by (simp add: list_all2_lengthD)
  have k: "cell_kind (h' ! a) = cell_kind (h ! a)" using F a by (rule heap_frame_kind)
  show "rel_option (normal_form B) (snapshot m h (VRef a)) (snapshot m h' (VRef a))"
  proof (cases m)
    case 0
    then show ?thesis by simp
  next
    case (Suc m')
    have kids: "list_all2 (\<lambda>x x'. rel_option (normal_form B) (snapshot m' h x) (snapshot m' h' x'))
            (cell_values (h ! a)) (cell_values (h' ! a))"
      unfolding list_all2_conv_all_nth using N len by (simp add: val_rel_def)
    have "normal_form B (TNode (cell_kind (h ! a)) ts) (TNode (cell_kind (h' ! a)) ts')"
      if "list_all2 (normal_form B) ts ts'" for ts ts'
    proof -
      have "normalize_kind (cell_kind (h ! a)) = cell_kind (h ! a)"
        using nt by (cases "cell_kind (h ! a)") simp_all
      moreover have "those (map (normalize_spec B) ts) = Some ts'"
        using that unfolding normal_form_def by (simp add: those_map_Some)
      ultimately show ?thesis by (simp add: normal_form_def k)
    qed
    with a a' kids show ?thesis unfolding Suc by (rule snapshot_ref_rel)
  qed
qed

lemma tuple_copy_rel:
  assumes wf: "wf_heap h" and a: "a < length h" and t: "h ! a = OTuple xs"
  shows "val_rel (\<lambda>t t1. \<exists>ts. t = TNode KTuple ts \<and> t1 = TNode KList ts)
           h (VRef a) (h @ [OList xs]) (VRef (length h))"
  unfolding val_rel_def
proof
  fix m
  let ?h = "h @ [OList xs]"
  show "rel_option (\<lambda>t t1. \<exists>ts. t = TNode KTuple ts \<and> t1 = TNode KList ts)
          (snapshot m h (VRef a)) (snapshot m ?h (VRef (length h)))"
  proof (cases m)
    case 0
    then show ?thesis by simp
  next
    case (Suc m')
    have cv: "cell_values (h ! a) = xs" "cell_values (?h ! length h) = xs"
      and ck: "cell_kind (h ! a) = KTuple" "cell_kind (?h ! length h) = KList"
      by (simp_all add: t cell_values_def cell_kind_def)
    have "rel_option (=) (snapshot m' h x) (snapshot m' ?h x)" if "x \<in> set xs" for x
    proof -
      have "in_heap h x" using wf a that cv(1) by (auto intro: wf_heap_cell)
      then show ?thesis using wf by (simp add: snapshot_append option.rel_eq)
    qed
    then have kids: "list_all2 (\<lambda>x x'. rel_option (=) (snapshot m' h x) (snapshot m' ?h x'))
            (cell_values (h ! a)) (cell_values (?h ! length h))"
      unfolding cv by (simp add: list_all2_same)
    have "length h < length ?h" by simp
    with a show ?thesis unfolding Suc
      using kids by (rule snapshot_ref_rel) (simp add: t cell_kind_def list.rel_eq)
  qed
qed

lemma to_json_dumpable_sound: "sound_call B (to_json_dumpable B n)"
proof (induction n)
  case 0
  then show ?case by (simp add: sound_call_def)
next
  case (Suc n)
  show ?case unfolding sound_call_def
  proof (intro allI impI)
    fix h v h' v'
    assume run: "to_json_dumpable B (Suc n) h v = Inr (h', v')"
      and wf: "wf_heap h" and inh: "in_heap h v"
    let ?goal = "wf_heap h' \<and> in_heap h' v' \<and> heap_frame B h h' \<and> val_rel (normal_form B) h v h' v'"
    have leaf: ?goal if nr: "\<And>a. v \<noteq> VRef a"
    proof -
      from run nr have "h' = h \<and> normalize_leaf B v = Some v' \<and> (\<forall>a. v' \<noteq> VRef a)"
        by (cases v) (auto split: option.splits)
      then have "h' = h" and nl: "normalize_leaf B v = Some v'" and nr': "\<And>a. v' \<noteq> VRef a"
        by auto
      have "val_rel (normal_form B) h v h' v'" using nr nr' nl by (rule leaf_rel)
      moreover have "in_heap h' v'" using nr' by (cases v') (auto simp: in_heap_def)
      ultimately show ?thesis using wf \<open>h' = h\<close> by (simp add: heap_frame_refl)
    qed
    show ?goal
    proof (cases v)
      case (VRef a)
      with inh have a: "a < length h" by (simp add: in_heap_def)
      then have d: "deref h a = Some (h ! a)" by (simp add: deref_def)
      show ?thesis
      proof (cases "h ! a")
        case (ODict kvs)
        with run VRef d have loop: "dict_loop (to_json_dumpable B n) a 0 (length kvs) h = Inr h'"
          and v': "v' = VRef a"
          by (auto split: sum.splits)
        have "loop_post B a 0 (length kvs) h h'"
          using Suc.IH loop wf by (rule dict_loop_sound)
        then have post: "loop_post B a 0 (length (cell_values (h ! a))) h h'"
          by (simp add: ODict cell_values_def)
        have "val_rel (normal_form B) h (VRef a) h' (VRef a)"
          using a post by (rule container_normalized) (simp add: ODict cell_kind_def)
        moreover have "in_heap h' (VRef a)"
          using post a by (auto simp: loop_post_def in_heap_def dest: heap_frame_length)
        ultimately show ?thesis using post by (simp add: VRef v' loop_post_def)
      next
        case (OList xs)
        with run VRef d have loop: "list_loop (to_json_dumpable B n) a 0 (length xs) h = Inr h'"
          and v': "v' = VRef a"
          by (auto split: sum.splits)
        have "loop_post B a 0 (length xs) h h'"
          using Suc.IH loop wf by (rule list_loop_sound)
        then have post: "loop_post B a 0 (length (cell_values (h ! a))) h h'"
          by (simp add: OList cell_values_def)
        have "val_rel (normal_form B) h (VRef a) h' (VRef a)"
          using a post by (rule container_normalized) (simp add: OList cell_kind_def)
        moreover have "in_heap h' (VRef a)"
          using post a by (auto simp: loop_post_def in_heap_def dest: heap_frame_length)
        ultimately show ?thesis using post by (simp add: VRef v' loop_post_def)
      next
        case (OTuple xs)
        let ?h = "h @ [OList xs]"
        from run VRef d OTuple
        have call: "to_json_dumpable B n ?h (VRef (length h)) = Inr (h', v')" by simp
        have "list_all (in_heap h) (cell_values (OList xs))"
          using wf a OTuple by (auto simp: list_all_iff cell_values_def dest: wf_heap_cell)
        then have wf1: "wf_heap ?h" using wf by (intro wf_heap_alloc) (simp_all add: distinct_keys_def)
        have "in_heap ?h (VRef (length h))" by (simp add: in_heap_def)
        with Suc.IH call wf1 have wf': "wf_heap h'" and v': "in_heap h' v'"
          and F: "heap_frame B ?h h'"
          and N: "val_rel (normal_form B) ?h (VRef (length h)) h' v'"
          unfolding sound_call_def by blast+
        have "heap_frame B h ?h" using wf by (rule heap_frame_alloc)
        then have F': "heap_frame B h h'" using F by (rule heap_frame_trans)
        have "val_rel (normal_form B) h (VRef a) h' v'"
          using tuple_copy_rel[OF wf a OTuple] N
          by (rule val_rel_trans) (auto simp: normal_form_def)
        then show ?thesis using wf' v' F' by (simp add: VRef)
      qed
    qed (rule leaf, simp)+
  qed
qed

section \<open>A value that was normalised can be read\<close>

lemma snapshot_mono: "snapshot m h v = Some t \<Longrightarrow> snapshot (Suc m) h v = Some t"
proof (induction m arbitrary: v t)
  case 0
  then show ?case by simp
next
  case (Suc m)
  show ?case
  proof (cases v)
    case (VRef a)
    with Suc.prems obtain ts where a: "a < length h"
      and ts: "those (map (snapshot m h) (cell_values (h ! a))) = Some ts"
      and t: "t = TNode (cell_kind (h ! a)) ts"
      by (auto simp: deref_def split: if_splits)
    from ts have "list_all2 (\<lambda>x y. snapshot m h x = Some y) (cell_values (h ! a)) ts"
      by (simp only: those_map_Some)
    then have "list_all2 (\<lambda>x y. snapshot (Suc m) h x = Some y) (cell_values (h ! a)) ts"
      by (rule list_all2_mono) (rule Suc.IH)
    then have "those (map (snapshot (Suc m) h) (cell_values (h ! a))) = Some ts"
      by (simp only: those_map_Some)
    then show ?thesis unfolding VRef t by (simp only: snapshot_ref[OF a] option.map)
  qed (use Suc.prems in auto)
qed

lemma readable_later:
  assumes "heap_frame B h h2" "a < length h" "j < length (cell_values (h ! a))"
    and "snapshot m h2 (cell_values (h2 ! a) ! j) \<noteq> None"
  shows "snapshot m h (cell_values (h ! a) ! j) \<noteq> None"
proof -
  have "val_rel (partly_normalized B) h (cell_values (h ! a) ! j) h2 (cell_values (h2 ! a) ! j)"
    using heap_frame_cell[OF assms(1,2)] assms(3) by (simp add: list_all2_conv_all_nth)
  then have "rel_option (partly_normalized B) (snapshot m h (cell_values (h ! a) ! j))
               (snapshot m h2 (cell_values (h2 ! a) ! j))"
    by (simp add: val_rel_def)
  with assms(4) show ?thesis by (cases "snapshot m h (cell_values (h ! a) ! j)") auto
qed

lemma list_loop_readable:
  assumes f: "sound_call B f" and r: "readable_call m f"
  shows "list_loop f a i k h = Inr h' \<Longrightarrow> wf_heap h \<Longrightarrow>
         i \<le> j \<Longrightarrow> j < i + k \<Longrightarrow> j < length (cell_values (h ! a)) \<Longrightarrow>
         snapshot m h (cell_values (h ! a) ! j) \<noteq> None"
proof (induction k arbitrary: i h)
  case 0
  then show ?case by simp
next
  case (Suc k)
  from Suc.prems(1) obtain xs where d: "deref h a = Some (OList xs)"
    by (auto split: option.splits pyobj.splits)
  then have a: "a < length h" and ha: "h ! a = OList xs"
    by (auto simp: deref_def split: if_splits)
  have cv: "cell_values (h ! a) = xs" and ck: "cell_kind (h ! a) = KList"
    by (simp_all add: ha cell_values_def cell_kind_def)
  have True: "i < length xs" using Suc.prems cv by simp
  with Suc.prems(1) d obtain h1 v' xs1 where call: "f h (xs ! i) = Inr (h1, v')"
    and d1: "deref h1 a = Some (OList xs1)" and i1: "i < length xs1"
    and rest: "list_loop f a (Suc i) k (h1[a := OList (xs1[i := v'])]) = Inr h'"
    by (auto split: sum.splits option.splits pyobj.splits if_splits)
  from d1 have h1a: "h1 ! a = OList xs1" by (auto simp: deref_def split: if_splits)
  have inh: "in_heap h (xs ! i)" using wf_heap_cell[OF Suc.prems(2) a, of "xs ! i"] True cv by simp
  show ?case
  proof (cases "j = i")
    case True
    then show ?thesis using r call Suc.prems(2) inh cv unfolding readable_call_def by metis
  next
    case False
    let ?ob = "OList (xs1[i := v'])"
    have ob1: "cell_kind ?ob = cell_kind (h1 ! a)" by (simp add: h1a cell_kind_def)
    have ob2: "cell_values ?ob = (cell_values (h1 ! a))[i := v']" by (simp add: h1a cell_values_def)
    have ob3: "distinct_keys ?ob" by (simp add: distinct_keys_def)
    have i': "i < length (cell_values (h ! a))" using True cv by simp
    have call': "f h (cell_values (h ! a) ! i) = Inr (h1, v')" using call cv by simp
    have nt: "cell_kind (h ! a) \<noteq> KTuple" using ck by simp
    note step = loop_step[OF f Suc.prems(2) a i' call' ob1 ob2 ob3 nt]
    have len: "length (cell_values ((h1[a := ?ob]) ! a)) = length (cell_values (h ! a))"
      using heap_frame_cell[OF step(2) a] by (simp add: list_all2_lengthD)
    have "snapshot m (h1[a := ?ob]) (cell_values ((h1[a := ?ob]) ! a) ! j) \<noteq> None"
      by (rule Suc.IH[OF rest step(1)]) (use Suc.prems(3,4,5) False len in simp_all)
    with step(2) a Suc.prems(5) show ?thesis by (rule readable_later)
  qed
qed

lemma dict_loop_readable:
  assumes f: "sound_call B f" and r: "readable_call m f"
  shows "dict_loop f a i k h = Inr h' \<Longrightarrow> wf_heap h \<Longrightarrow>
         i \<le> j \<Longrightarrow> j < i + k \<Longrightarrow> j < length (cell_values (h ! a)) \<Longrightarrow>
         snapshot m h (cell_values (h ! a) ! j) \<noteq> None"
proof (induction k arbitrary: i h)
  case 0
  then show ?case by simp
next
  case (Suc k)
  from Suc.prems(1) obtain kvs where d: "deref h a = Some (ODict kvs)"
    by (auto split: option.splits pyobj.splits)
  then have a: "a < length h" and ha: "h ! a = ODict kvs"
    by (auto simp: deref_def split: if_splits)
  have cv: "cell_values (h ! a) = map snd kvs" and ck: "cell_kind (h ! a) = KDict (map fst kvs)"
    by (simp_all add: ha cell_values_def cell_kind_def)
  have True: "i < length kvs" using Suc.prems cv by simp
  with Suc.prems(1) d obtain h1 v' kvs1 where call: "f h (snd (kvs ! i)) = Inr (h1, v')"
    and d1: "deref h1 a = Some (ODict kvs1)"
    and rest: "dict_loop f a (Suc i) k
                 (h1[a := ODict (AList.update (fst (kvs ! i)) v' kvs1)]) = Inr h'"
    by (auto split: sum.splits option.splits pyobj.splits if_splits)
  from d1 have a1: "a < length h1" and h1a: "h1 ! a = ODict kvs1"
    by (auto simp: deref_def split: if_splits)
  have inh: "in_heap h (snd (kvs ! i))"
    using wf_heap_cell[OF Suc.prems(2) a, of "snd (kvs ! i)"] True cv by simp
  show ?case
  proof (cases "j = i")
    case j_i: True
    have "snapshot m h (snd (kvs ! i)) \<noteq> None"
      using r call Suc.prems(2) inh unfolding readable_call_def by metis
    then show ?thesis using j_i True cv by simp
  next
    case False
    from f call Suc.prems(2) inh have wf1: "wf_heap h1" and F1: "heap_frame B h h1"
      unfolding sound_call_def by blast+
    have keys: "map fst kvs1 = map fst kvs"
      using heap_frame_kind[OF F1 a] by (simp add: ha h1a cell_kind_def)
    then have len1: "length kvs1 = length kvs" by (metis length_map)
    have key: "fst (kvs1 ! i) = fst (kvs ! i)"
      using keys True len1 by (metis nth_map)
    have dist: "distinct (map fst kvs1)"
      using wf1 a1 h1a by (auto simp: wf_heap_def list_all_iff distinct_keys_def dest!: nth_mem)
    then have upd: "AList.update (fst (kvs ! i)) v' kvs1 = kvs1[i := (fst (kvs1 ! i), v')]"
      using True len1 key update_at[of kvs1 i v'] by simp
    let ?ob = "ODict (AList.update (fst (kvs ! i)) v' kvs1)"
    have same_keys: "(map fst kvs1)[i := fst (kvs1 ! i)] = map fst kvs1"
      using True len1 by (simp add: list_update_same_conv)
    have ob1: "cell_kind ?ob = cell_kind (h1 ! a)"
      unfolding upd by (simp add: h1a cell_kind_def map_update same_keys)
    have ob2: "cell_values ?ob = (cell_values (h1 ! a))[i := v']"
      unfolding upd by (simp add: h1a cell_values_def map_update)
    have ob3: "distinct_keys ?ob"
      using dist unfolding upd by (simp add: distinct_keys_def map_update same_keys)
    have i': "i < length (cell_values (h ! a))" using True cv by simp
    have call': "f h (cell_values (h ! a) ! i) = Inr (h1, v')" using call True cv by simp
    have nt: "cell_kind (h ! a) \<noteq> KTuple" using ck by simp
    note step = loop_step[OF f Suc.prems(2) a i' call' ob1 ob2 ob3 nt]
    have len: "length (cell_values ((h1[a := ?ob]) ! a)) = length (cell_values (h ! a))"
      using heap_frame_cell[OF step(2) a] by (simp add: list_all2_lengthD)
    have "snapshot m (h1[a := ?ob]) (cell_values ((h1[a := ?ob]) ! a) ! j) \<noteq> None"
      by (rule Suc.IH[OF rest step(1)]) (use Suc.prems(3,4,5) False len in simp_all)
    with step(2) a Suc.prems(5) show ?thesis by (rule readable_later)
  qed
qed

lemma those_defined:
  "(\<And>x. x \<in> set xs \<Longrightarrow> f x \<noteq> None) \<Longrightarrow> those (map f xs) \<noteq> None"
  by (induction xs) (auto split: option.splits)

lemma container_readable:
  assumes "a < length h"
    and "\<And>j. j < length (cell_values (h ! a)) \<Longrightarrow> snapshot m h (cell_values (h ! a) ! j) \<noteq> None"
  shows "snapshot (Suc m) h (VRef a) \<noteq> None"
proof -
  have "those (map (snapshot m h) (cell_values (h ! a))) \<noteq> None"
    using assms(2) by (intro those_defined) (auto simp: set_conv_nth)
  then show ?thesis by (simp only: snapshot_ref[OF assms(1)]) simp
qed

lemma to_json_dumpable_readable: "readable_call n (to_json_dumpable B n)"
proof (induction n)
  case 0
  then show ?case by (simp add: readable_call_def)
next
  case (Suc n)
  note S = to_json_dumpable_sound[of B n]
  show ?case unfolding readable_call_def
  proof (intro allI impI)
    fix h v h' v'
    assume run: "to_json_dumpable B (Suc n) h v = Inr (h', v')"
      and wf: "wf_heap h" and inh: "in_heap h v"
    show "snapshot (Suc n) h v \<noteq> None"
    proof (cases v)
      case (VRef a)
      with inh have a: "a < length h" by (simp add: in_heap_def)
      then have d: "deref h a = Some (h ! a)" by (simp add: deref_def)
      show ?thesis
      proof (cases "h ! a")
        case (ODict kvs)
        with run VRef d have loop: "dict_loop (to_json_dumpable B n) a 0 (length kvs) h = Inr h'"
          by (auto split: sum.splits)
        have "snapshot n h (cell_values (h ! a) ! j) \<noteq> None"
          if "j < length (cell_values (h ! a))" for j
          using S Suc.IH loop wf _ _ that
          by (rule dict_loop_readable) (use that in \<open>simp_all add: ODict cell_values_def\<close>)
        with a show ?thesis unfolding VRef by (rule container_readable)
      next
        case (OList xs)
        with run VRef d have loop: "list_loop (to_json_dumpable B n) a 0 (length xs) h = Inr h'"
          by (auto split: sum.splits)
        have "snapshot n h (cell_values (h ! a) ! j) \<noteq> None"
          if "j < length (cell_values (h ! a))" for j
          using S Suc.IH loop wf _ _ that
          by (rule list_loop_readable) (use that in \<open>simp_all add: OList cell_values_def\<close>)
        with a show ?thesis unfolding VRef by (rule container_readable)
      next
        case (OTuple xs)
        let ?h = "h @ [OList xs]"
        from run VRef d OTuple
        have call: "to_json_dumpable B n ?h (VRef (length h)) = Inr (h', v')" by simp
        have "list_all (in_heap h) (cell_values (OList xs))"
          using wf a OTuple by (auto simp: list_all_iff cell_values_def dest: wf_heap_cell)
        then have wf1: "wf_heap ?h" using wf by (intro wf_heap_alloc) (simp_all add: distinct_keys_def)
        have "in_heap ?h (VRef (length h))" by (simp add: in_heap_def)
        with Suc.IH call wf1 have "snapshot n ?h (VRef (length h)) \<noteq> None"
          unfolding readable_call_def by blast
        moreover have "rel_option (\<lambda>t t1. \<exists>ts. t = TNode KTuple ts \<and> t1 = TNode KList ts)
            (snapshot n h (VRef a)) (snapshot n ?h (VRef (length h)))"
          using tuple_copy_rel[OF wf a OTuple] by (simp add: val_rel_def)
        ultimately obtain t where "snapshot n h (VRef a) = Some t"
          by (cases "snapshot n h (VRef a)") auto
        then have "snapshot (Suc n) h (VRef a) = Some t" by (rule snapshot_mono)
        then show ?thesis by (simp add: VRef)
      qed
    qed simp_all
  qed
qed

section \<open>The normalisation returns\<close>

lemma convertible_later:
  assumes "heap_frame B h h2" "a < length h" "j < length (cell_values (h ! a))"
    and "convertible B m h (cell_values (h ! a) ! j)"
  shows "convertible B m h2 (cell_values (h2 ! a) ! j)"
proof -
  from assms(4) obtain t t' where t: "snapshot m h (cell_values (h ! a) ! j) = Some t"
    "normalize_spec B t = Some t'"
    by (auto simp: convertible_def)
  have "val_rel (partly_normalized B) h (cell_values (h ! a) ! j) h2 (cell_values (h2 ! a) ! j)"
    using heap_frame_cell[OF assms(1,2)] assms(3) by (simp add: list_all2_conv_all_nth)
  then have "rel_option (partly_normalized B) (snapshot m h (cell_values (h ! a) ! j))
               (snapshot m h2 (cell_values (h2 ! a) ! j))"
    by (simp add: val_rel_def)
  with t(1) obtain t2 where t2: "snapshot m h2 (cell_values (h2 ! a) ! j) = Some t2"
    "partly_normalized B t t2"
    by (cases "snapshot m h2 (cell_values (h2 ! a) ! j)") auto
  then have "normalize_spec B t2 = Some t'" using t(2) by (simp add: pn_same_normal_form)
  with t2(1) show ?thesis by (auto simp: convertible_def)
qed

lemma convertible_in_heap: "convertible B m h v \<Longrightarrow> in_heap h v"
  by (cases m; cases v) (auto simp: convertible_def in_heap_def deref_def split: if_splits)

lemma list_loop_complete:
  assumes f: "sound_call B f" and c: "complete_call B m f"
  shows "wf_heap h \<Longrightarrow> a < length h \<Longrightarrow> cell_kind (h ! a) = KList \<Longrightarrow>
         (\<And>j. i \<le> j \<Longrightarrow> j < length (cell_values (h ! a)) \<Longrightarrow>
               convertible B m h (cell_values (h ! a) ! j)) \<Longrightarrow>
         \<exists>h'. list_loop f a i k h = Inr h'"
proof (induction k arbitrary: i h)
  case 0
  then show ?case by simp
next
  case (Suc k)
  from Suc.prems(3) obtain xs where ha: "h ! a = OList xs"
    by (cases "h ! a") (auto simp: cell_kind_def)
  have d: "deref h a = Some (OList xs)" using Suc.prems(2) ha by (simp add: deref_def)
  have cv: "cell_values (h ! a) = xs" by (simp add: ha cell_values_def)
  show ?case
  proof (cases "i < length xs")
    case False
    then show ?thesis using d by simp
  next
    case True
    have conv: "convertible B m h (xs ! i)" using Suc.prems(4)[of i] True cv by simp
    then obtain h1 v' where call: "f h (xs ! i) = Inr (h1, v')"
      using c Suc.prems(1) unfolding complete_call_def convertible_def by blast
    from f call Suc.prems(1) convertible_in_heap[OF conv]
    have F1: "heap_frame B h h1" unfolding sound_call_def by blast
    have a1: "a < length h1" using heap_frame_length[OF F1] Suc.prems(2) by simp
    have "cell_kind (h1 ! a) = KList" using heap_frame_kind[OF F1 Suc.prems(2)] Suc.prems(3) by simp
    then obtain xs1 where h1a: "h1 ! a = OList xs1"
      by (cases "h1 ! a") (auto simp: cell_kind_def)
    have "length (cell_values (h1 ! a)) = length (cell_values (h ! a))"
      using heap_frame_cell[OF F1 Suc.prems(2)] by (simp add: list_all2_lengthD)
    then have i1: "i < length xs1" using True cv h1a by (simp add: cell_values_def)
    let ?ob = "OList (xs1[i := v'])"
    let ?h2 = "h1[a := ?ob]"
    have ob1: "cell_kind ?ob = cell_kind (h1 ! a)" by (simp add: h1a cell_kind_def)
    have ob2: "cell_values ?ob = (cell_values (h1 ! a))[i := v']" by (simp add: h1a cell_values_def)
    have ob3: "distinct_keys ?ob" by (simp add: distinct_keys_def)
    have i': "i < length (cell_values (h ! a))" using True cv by simp
    have call': "f h (cell_values (h ! a) ! i) = Inr (h1, v')" using call cv by simp
    have nt: "cell_kind (h ! a) \<noteq> KTuple" using Suc.prems(3) by simp
    note step = loop_step[OF f Suc.prems(1,2) i' call' ob1 ob2 ob3 nt]
    have a2: "a < length ?h2" using a1 by simp
    have k2: "cell_kind (?h2 ! a) = KList" using a1 by (simp add: cell_kind_def)
    have len: "length (cell_values (?h2 ! a)) = length (cell_values (h ! a))"
      using heap_frame_cell[OF step(2) Suc.prems(2)] by (simp add: list_all2_lengthD)
    have "\<exists>h'. list_loop f a (Suc i) k ?h2 = Inr h'"
    proof (rule Suc.IH[OF step(1) a2 k2])
      fix j assume j: "Suc i \<le> j" "j < length (cell_values (?h2 ! a))"
      have jl: "j < length (cell_values (h ! a))" using j(2) len by simp
      have "i \<le> j" using j(1) by simp
      then have cj: "convertible B m h (cell_values (h ! a) ! j)"
        using jl by (rule Suc.prems(4))
      show "convertible B m ?h2 (cell_values (?h2 ! a) ! j)"
        using step(2) Suc.prems(2) jl cj by (rule convertible_later)
    qed
    then show ?thesis using d True call a1 h1a i1 by (simp add: deref_def)
  qed
qed

lemma dict_loop_complete:
  assumes f: "sound_call B f" and c: "complete_call B m f"
  shows "wf_heap h \<Longrightarrow> a < length h \<Longrightarrow> cell_kind (h ! a) = KDict ks \<Longrightarrow>
         (\<And>j. i \<le> j \<Longrightarrow> j < length (cell_values (h ! a)) \<Longrightarrow>
               convertible B m h (cell_values (h ! a) ! j)) \<Longrightarrow>
         \<exists>h'. dict_loop f a i k h = Inr h'"
proof (induction k arbitrary: i h)
  case 0
  then show ?case by simp
next
  case (Suc k)
  from Suc.prems(3) obtain kvs where ha: "h ! a = ODict kvs" and ks: "ks = map fst kvs"
    by (cases "h ! a") (auto simp: cell_kind_def)
  have d: "deref h a = Some (ODict kvs)" using Suc.prems(2) ha by (simp add: deref_def)
  have cv: "cell_values (h ! a) = map snd kvs" by (simp add: ha cell_values_def)
  show ?case
  proof (cases "i < length kvs")
    case False
    then show ?thesis using d by simp
  next
    case True
    have conv: "convertible B m h (snd (kvs ! i))" using Suc.prems(4)[of i] True cv by simp
    then obtain h1 v' where call: "f h (snd (kvs ! i)) = Inr (h1, v')"
      using c Suc.prems(1) unfolding complete_call_def convertible_def by blast
    from f call Suc.prems(1) convertible_in_heap[OF conv]
    have wf1: "wf_heap h1" and F1: "heap_frame B h h1" unfolding sound_call_def by blast+
    have a1: "a < length h1" using heap_frame_length[OF F1] Suc.prems(2) by simp
    have "cell_kind (h1 ! a) = KDict ks"
      using heap_frame_kind[OF F1 Suc.prems(2)] Suc.prems(3) by simp
    then obtain kvs1 where h1a: "h1 ! a = ODict kvs1" and keys: "map fst kvs1 = map fst kvs"
      using ks by (cases "h1 ! a") (auto simp: cell_kind_def)
    then have len1: "length kvs1 = length kvs" by (metis length_map)
    have key: "fst (kvs1 ! i) = fst (kvs ! i)"
      using keys True len1 by (metis nth_map)
    have dist: "distinct (map fst kvs1)"
      using wf1 a1 h1a by (auto simp: wf_heap_def list_all_iff distinct_keys_def dest!: nth_mem)
    then have upd: "AList.update (fst (kvs ! i)) v' kvs1 = kvs1[i := (fst (kvs1 ! i), v')]"
      using True len1 key update_at[of kvs1 i v'] by simp
    let ?ob = "ODict (AList.update (fst (kvs ! i)) v' kvs1)"
    let ?h2 = "h1[a := ?ob]"
    have same_keys: "(map fst kvs1)[i := fst (kvs1 ! i)] = map fst kvs1"
      using True len1 by (simp add: list_update_same_conv)
    have ob1: "cell_kind ?ob = cell_kind (h1 ! a)"
      unfolding upd by (simp add: h1a cell_kind_def map_update same_keys)
    have ob2: "cell_values ?ob = (cell_values (h1 ! a))[i := v']"
      unfolding upd by (simp add: h1a cell_values_def map_update)
    have ob3: "distinct_keys ?ob"
      using dist unfolding upd by (simp add: distinct_keys_def map_update same_keys)
    have i': "i < length (cell_values (h ! a))" using True cv by simp
    have call': "f h (cell_values (h ! a) ! i) = Inr (h1, v')" using call True cv by simp
    have nt: "cell_kind (h ! a) \<noteq> KTuple" using Suc.prems(3) by simp
    note step = loop_step[OF f Suc.prems(1,2) i' call' ob1 ob2 ob3 nt]
    have a2: "a < length ?h2" using a1 by simp
    have k2: "cell_kind (?h2 ! a) = KDict ks"
      using heap_frame_kind[OF step(2) Suc.prems(2)] Suc.prems(3) by simp
    have len: "length (cell_values (?h2 ! a)) = length (cell_values (h ! a))"
      using heap_frame_cell[OF step(2) Suc.prems(2)] by (simp add: list_all2_lengthD)
    have "\<exists>h'. dict_loop f a (Suc i) k ?h2 = Inr h'"
    proof (rule Suc.IH[OF step(1) a2 k2])
      fix j assume j: "Suc i \<le> j" "j < length (cell_values (?h2 ! a))"
      have jl: "j < length (cell_values (h ! a))" using j(2) len by simp
      have "i \<le> j" using j(1) by simp
      then have cj: "convertible B m h (cell_values (h ! a) ! j)"
        using jl by (rule Suc.prems(4))
      show "convertible B m ?h2 (cell_values (?h2 ! a) ! j)"
        using step(2) Suc.prems(2) jl cj by (rule convertible_later)
    qed
    then show ?thesis using d True call a1 h1a by (simp add: deref_def)
  qed
qed

lemma to_json_dumpable_complete:
  "2 * m \<le> n \<Longrightarrow> complete_call B m (to_json_dumpable B n)"
proof (induction m arbitrary: n)
  case 0
  then show ?case by (simp add: complete_call_def)
next
  case (Suc m)
  then obtain n' where n: "n = Suc (Suc n')" and n': "2 * m \<le> n'"
    by (cases n; cases "n - 1") auto
  have c0: "complete_call B m (to_json_dumpable B n')" using n' by (rule Suc.IH)
  have c1: "complete_call B m (to_json_dumpable B (Suc n'))" using n' by (intro Suc.IH) simp
  note s0 = to_json_dumpable_sound[of B n']
  note s1 = to_json_dumpable_sound[of B "Suc n'"]
  show ?case unfolding complete_call_def
  proof (intro allI impI)
    fix h v t t'
    assume snap: "snapshot (Suc m) h v = Some t" and norm: "normalize_spec B t = Some t'"
      and wf: "wf_heap h"
    show "\<exists>h' v'. to_json_dumpable B n h v = Inr (h', v')"
    proof (cases v)
      case (VRef a)
      with snap obtain ts where a: "a < length h"
        and ts: "those (map (snapshot m h) (cell_values (h ! a))) = Some ts"
        and t: "t = TNode (cell_kind (h ! a)) ts"
        by (auto simp: deref_def split: if_splits)
      from norm obtain ts' where "those (map (normalize_spec B) ts) = Some ts'"
        unfolding t by auto
      then have nkids: "list_all2 (\<lambda>x y. normalize_spec B x = Some y) ts ts'"
        by (simp only: those_map_Some)
      have kids: "list_all2 (\<lambda>x y. snapshot m h x = Some y) (cell_values (h ! a)) ts"
        using ts by (simp only: those_map_Some)
      have conv: "convertible B m h (cell_values (h ! a) ! j)"
        if "j < length (cell_values (h ! a))" for j
      proof -
        have "snapshot m h (cell_values (h ! a) ! j) = Some (ts ! j)"
          using kids that by (simp add: list_all2_conv_all_nth)
        moreover have "normalize_spec B (ts ! j) = Some (ts' ! j)"
          using nkids kids that by (simp add: list_all2_conv_all_nth)
        ultimately show ?thesis by (auto simp: convertible_def)
      qed
      have d: "deref h a = Some (h ! a)" using a by (simp add: deref_def)
      show ?thesis
      proof (cases "h ! a")
        case (ODict kvs)
        have "\<exists>h'. dict_loop (to_json_dumpable B (Suc n')) a 0 (length kvs) h = Inr h'"
          using s1 c1 wf a
          by (rule dict_loop_complete[where ks = "map fst kvs"])
             (simp_all add: ODict cell_kind_def conv[unfolded ODict])
        then show ?thesis using d ODict by (auto simp: VRef n)
      next
        case (OList xs)
        have "\<exists>h'. list_loop (to_json_dumpable B (Suc n')) a 0 (length xs) h = Inr h'"
          using s1 c1 wf a
          by (rule list_loop_complete) (simp_all add: OList cell_kind_def conv[unfolded OList])
        then show ?thesis using d OList by (auto simp: VRef n)
      next
        case (OTuple xs)
        let ?h = "h @ [OList xs]"
        have cv: "cell_values (h ! a) = xs" by (simp add: OTuple cell_values_def)
        have "list_all (in_heap h) (cell_values (OList xs))"
          using wf a OTuple by (auto simp: list_all_iff cell_values_def dest: wf_heap_cell)
        then have wf1: "wf_heap ?h" using wf by (intro wf_heap_alloc) (simp_all add: distinct_keys_def)
        have conv1: "convertible B m ?h (cell_values (?h ! length h) ! j)"
          if "j < length (cell_values (?h ! length h))" for j
        proof -
          have j: "j < length xs" using that by (simp add: cell_values_def)
          then have "in_heap h (xs ! j)" using wf a cv by (auto intro: wf_heap_cell)
          then have "snapshot m ?h (xs ! j) = snapshot m h (xs ! j)"
            using wf by (simp add: snapshot_append)
          then show ?thesis using conv[of j] j cv by (simp add: convertible_def cell_values_def)
        qed
        have "\<exists>h'. list_loop (to_json_dumpable B n') (length h) 0 (length xs) ?h = Inr h'"
          using s0 c0 wf1
          by (rule list_loop_complete) (simp_all add: cell_kind_def conv1[simplified])
        then show ?thesis using d OTuple by (auto simp: VRef n deref_def)
      qed
    qed (use snap norm in \<open>auto simp: n split: option.splits\<close>)
  qed
qed

section \<open>Normalising a normal form changes nothing\<close>

lemma heap_update_same: "a < length h \<Longrightarrow> h ! a = ob \<Longrightarrow> h[a := ob] = h"
  by (metis list_update_id)

lemma list_loop_fixed:
  assumes "deref h a = Some (OList xs)"
    and "\<And>j. j < length xs \<Longrightarrow> f h (xs ! j) = Inr (h, xs ! j)"
  shows "list_loop f a i k h = Inr h"
proof (induction k arbitrary: i)
  case 0
  then show ?case by simp
next
  case (Suc k)
  from assms(1) have a: "a < length h" "h ! a = OList xs"
    by (auto simp: deref_def split: if_splits)
  show ?case
  proof (cases "i < length xs")
    case True
    have "h[a := OList (xs[i := xs ! i])] = h" using a by (simp add: heap_update_same)
    then show ?thesis using True assms Suc.IH[of "Suc i"] by simp
  next
    case False
    then show ?thesis using assms(1) by simp
  qed
qed

lemma dict_loop_fixed:
  assumes "deref h a = Some (ODict kvs)" and "distinct (map fst kvs)"
    and "\<And>j. j < length kvs \<Longrightarrow> f h (snd (kvs ! j)) = Inr (h, snd (kvs ! j))"
  shows "dict_loop f a i k h = Inr h"
proof (induction k arbitrary: i)
  case 0
  then show ?case by simp
next
  case (Suc k)
  from assms(1) have a: "a < length h" "h ! a = ODict kvs"
    by (auto simp: deref_def split: if_splits)
  show ?case
  proof (cases "i < length kvs")
    case True
    have "AList.update (fst (kvs ! i)) (snd (kvs ! i)) kvs = kvs"
      using update_at[OF assms(2) True, of "snd (kvs ! i)"] by simp
    then have "h[a := ODict (AList.update (fst (kvs ! i)) (snd (kvs ! i)) kvs)] = h"
      using a by (simp add: heap_update_same)
    then show ?thesis using True assms(1,3) Suc.IH[of "Suc i"] by simp
  next
    case False
    then show ?thesis using assms(1) by simp
  qed
qed

lemma normalized_fixed:
  "snapshot m h v = Some t \<Longrightarrow> normalize_spec B t = Some t \<Longrightarrow> wf_heap h \<Longrightarrow> m \<le> n \<Longrightarrow>
   to_json_dumpable B n h v = Inr (h, v)"
proof (induction n arbitrary: m v t)
  case 0
  then show ?case by simp
next
  case (Suc n)
  from Suc.prems(1) obtain m' where m: "m = Suc m'" by (cases m) auto
  show ?case
  proof (cases v)
    case (VRef a)
    with Suc.prems(1) m obtain ts where a: "a < length h"
      and ts: "those (map (snapshot m' h) (cell_values (h ! a))) = Some ts"
      and t: "t = TNode (cell_kind (h ! a)) ts"
      by (auto simp: deref_def split: if_splits)
    from Suc.prems(2) have nk: "normalize_kind (cell_kind (h ! a)) = cell_kind (h ! a)"
      and nts: "those (map (normalize_spec B) ts) = Some ts"
      unfolding t by auto
    have kids: "list_all2 (\<lambda>x y. snapshot m' h x = Some y) (cell_values (h ! a)) ts"
      using ts by (simp only: those_map_Some)
    have nkids: "list_all2 (\<lambda>x y. normalize_spec B x = Some y) ts ts"
      using nts by (simp only: those_map_Some)
    have fixed: "to_json_dumpable B n h (cell_values (h ! a) ! j) = Inr (h, cell_values (h ! a) ! j)"
      if "j < length (cell_values (h ! a))" for j
    proof -
      have "snapshot m' h (cell_values (h ! a) ! j) = Some (ts ! j)"
        using kids that by (simp add: list_all2_conv_all_nth)
      moreover have "normalize_spec B (ts ! j) = Some (ts ! j)"
        using nkids kids that by (simp add: list_all2_conv_all_nth)
      ultimately show ?thesis using Suc.prems(3,4) m by (intro Suc.IH[where m = m']) simp_all
    qed
    have d: "deref h a = Some (h ! a)" using a by (simp add: deref_def)
    show ?thesis
    proof (cases "h ! a")
      case (ODict kvs)
      have dist: "distinct (map fst kvs)"
        using Suc.prems(3) a ODict
        by (auto simp: wf_heap_def list_all_iff distinct_keys_def dest!: nth_mem)
      have dk: "deref h a = Some (ODict kvs)" using d ODict by simp
      have "to_json_dumpable B n h (snd (kvs ! j)) = Inr (h, snd (kvs ! j))"
        if "j < length kvs" for j
        using fixed[of j] that by (simp add: ODict cell_values_def)
      with dk dist have "dict_loop (to_json_dumpable B n) a 0 (length kvs) h = Inr h"
        by (rule dict_loop_fixed)
      then show ?thesis using d ODict by (simp add: VRef)
    next
      case (OList xs)
      have dl: "deref h a = Some (OList xs)" using d OList by simp
      have "to_json_dumpable B n h (xs ! j) = Inr (h, xs ! j)" if "j < length xs" for j
        using fixed[of j] that by (simp add: OList cell_values_def)
      with dl have "list_loop (to_json_dumpable B n) a 0 (length xs) h = Inr h"
        by (rule list_loop_fixed)
      then show ?thesis using d OList by (simp add: VRef)
    next
      case (OTuple xs)
      then show ?thesis using nk by (simp add: cell_kind_def)
    qed
  qed (use Suc.prems(1,2) m in \<open>auto split: option.splits\<close>)
qed

text \<open>
  C2.  Normalisation is idempotent: when \<open>_to_json_dumpable\<close> has returned, applying it to
  its result, in the heap it left, returns the same value and leaves the heap as it is, so
  the text serialised after a second application is the text serialised after the first.
  (That it is deterministic is what being a function of the heap and the value says.)
\<close>

theorem normalisation_idempotent:
  assumes "to_json_dumpable B n h v = Inr (h1, v1)" "wf_heap h" "in_heap h v"
  shows "to_json_dumpable B n h1 v1 = Inr (h1, v1) \<and>
         serialize_actual B n h1 v1 = serialize_actual B n h v"
proof -
  from to_json_dumpable_sound[of B n] assms
  have wf1: "wf_heap h1" and N: "val_rel (normal_form B) h v h1 v1"
    unfolding sound_call_def by blast+
  from to_json_dumpable_readable[of n B] assms
  obtain t where t: "snapshot n h v = Some t" unfolding readable_call_def by blast
  from N have "rel_option (normal_form B) (snapshot n h v) (snapshot n h1 v1)"
    by (simp add: val_rel_def)
  with t obtain t' where t': "snapshot n h1 v1 = Some t'" "normalize_spec B t = Some t'"
    by (cases "snapshot n h1 v1") (auto simp: normal_form_def)
  then have "normalize_spec B t' = Some t'" by (simp add: normalize_spec_idem)
  with t'(1) have again: "to_json_dumpable B n h1 v1 = Inr (h1, v1)"
    using wf1 by (rule normalized_fixed) simp
  then show ?thesis using assms(1) by (simp add: serialize_actual_def)
qed

lemma normalize_spec_fully:
  "normalize_spec B t = Some t' \<Longrightarrow> fully_normalized t'"
proof (induction t arbitrary: t')
  case (TLeaf v)
  then show ?case by (cases v) auto
next
  case (TNode k ts)
  from iffD1[OF normalize_node_Some TNode.prems]
  obtain ts' where t': "t' = TNode (normalize_kind k) ts'"
    and all: "list_all2 (\<lambda>t t'. normalize_spec B t = Some t') ts ts'"
    by blast
  have "fully_normalized y" if "y \<in> set ts'" for y
  proof -
    from that obtain i where i: "i < length ts'" "y = ts' ! i"
      by (auto simp: in_set_conv_nth)
    then have "ts ! i \<in> set ts" "normalize_spec B (ts ! i) = Some y"
      using all by (simp_all add: list_all2_conv_all_nth)
    then show ?thesis by (rule TNode.IH)
  qed
  moreover have "normalize_kind k \<noteq> KTuple" by (cases k) auto
  ultimately show ?case unfolding t' by (simp add: list_all_iff)
qed

lemma normalisation_result:
  assumes "to_json_dumpable B n h v = Inr (h', v')" "wf_heap h" "in_heap h v"
  shows "\<exists>t t'. snapshot n h v = Some t \<and> normalize_spec B t = Some t' \<and>
                snapshot n h' v' = Some t'"
proof -
  from to_json_dumpable_sound[of B n] assms
  have N: "val_rel (normal_form B) h v h' v'"
    unfolding sound_call_def by blast
  from to_json_dumpable_readable[of n B] assms
  obtain t where t: "snapshot n h v = Some t" unfolding readable_call_def by blast
  from N have "rel_option (normal_form B) (snapshot n h v) (snapshot n h' v')"
    by (simp add: val_rel_def)
  with t obtain t' where "snapshot n h' v' = Some t'" "normalize_spec B t = Some t'"
    by (cases "snapshot n h' v'") (auto simp: normal_form_def)
  with t show ?thesis by blast
qed

text \<open>
  C4.  Normalisation reaches every level.  Take a value whose tree \<open>t\<close>, read within \<open>m\<close>
  levels, has a normal form \<open>t'\<close> by the table of the specification (defined by recursion
  over mappings, lists and tuples), and a recursion limit of at least \<open>2 * m\<close> frames.  Then
  \<open>_to_json_dumpable\<close> returns, and the value it returns, read in the heap it leaves, is
  \<open>t'\<close>.  In \<open>t'\<close> no decimal, date or byte string and no tuple is left at any depth; a
  mapping has kept its keys and a list or tuple has become a list, in both cases with every
  entry normalised in order.
\<close>

theorem normalisation_recurses:
  assumes "snapshot m h v = Some t" "normalize_spec B t = Some t'" "wf_heap h" "2 * m \<le> n"
  shows "\<exists>h' v'. to_json_dumpable B n h v = Inr (h', v') \<and> snapshot m h' v' = Some t' \<and>
           fully_normalized t' \<and>
           (\<forall>k ts. t = TNode k ts \<longrightarrow>
              (\<exists>ts'. t' = TNode (normalize_kind k) ts' \<and>
                     list_all2 (\<lambda>x y. normalize_spec B x = Some y) ts ts'))"
proof -
  from to_json_dumpable_complete[OF assms(4), of B] assms(1,2,3)
  obtain h' v' where run: "to_json_dumpable B n h v = Inr (h', v')"
    unfolding complete_call_def by blast
  have "in_heap h v" using assms(1,2) by (intro convertible_in_heap) (auto simp: convertible_def)
  with to_json_dumpable_sound[of B n] run assms(3)
  have "val_rel (normal_form B) h v h' v'" unfolding sound_call_def by blast
  then have "rel_option (normal_form B) (snapshot m h v) (snapshot m h' v')"
    by (simp add: val_rel_def)
  with assms(1,2) have s: "snapshot m h' v' = Some t'"
    by (cases "snapshot m h' v'") (auto simp: normal_form_def)
  have "fully_normalized t'" using assms(2) by (rule normalize_spec_fully)
  moreover have "\<exists>ts'. t' = TNode (normalize_kind k) ts' \<and>
      list_all2 (\<lambda>x y. normalize_spec B x = Some y) ts ts'" if "t = TNode k ts" for k ts
    using iffD1[OF normalize_node_Some] assms(2) that by blast
  ultimately show ?thesis using run s by blast
qed

lemma container_result:
  "to_json_dumpable B n h (VRef a) = Inr (h', v') \<Longrightarrow> a < length h \<Longrightarrow>
   cell_kind (h ! a) \<noteq> KTuple \<Longrightarrow> v' = VRef a"
  by (cases n; cases "h ! a") (auto simp: deref_def cell_kind_def split: sum.splits)

text \<open>
  C10.  Normalisation is in place.  For a dict or a list the value returned is the very
  address that was given, and the object at that address, of the same kind, now holds the
  normal form.  For a tuple the value returned is a new address, the tuple is the object it
  was, and the new object is a list.  The heap that \<open>assert_equals_resultset\<close> continues
  with (the second component of \<open>serialize_actual\<close>) is the heap the normalisation left.
\<close>

theorem normalisation_in_place:
  assumes "to_json_dumpable B n h (VRef a) = Inr (h', v')" "wf_heap h" "a < length h"
  shows "(cell_kind (h ! a) \<noteq> KTuple \<longrightarrow>
            v' = VRef a \<and> cell_kind (h' ! a) = cell_kind (h ! a) \<and>
            (\<exists>t t'. snapshot n h (VRef a) = Some t \<and> normalize_spec B t = Some t' \<and>
                    snapshot n h' (VRef a) = Some t')) \<and>
         (cell_kind (h ! a) = KTuple \<longrightarrow>
            v' = VRef (length h) \<and> h' ! a = h ! a \<and> cell_kind (h' ! length h) = KList) \<and>
         snd (serialize_actual B n h (VRef a)) = h'"
proof (intro conjI impI)
  have inh: "in_heap h (VRef a)" using assms(3) by (simp add: in_heap_def)
  from to_json_dumpable_sound[of B n] assms(1,2) inh
  have F: "heap_frame B h h'" unfolding sound_call_def by blast
  show "snd (serialize_actual B n h (VRef a)) = h'"
    using assms(1) by (simp add: serialize_actual_def split: sum.splits)
  {
    assume nt: "cell_kind (h ! a) \<noteq> KTuple"
    show v': "v' = VRef a" using assms(1,3) nt by (rule container_result)
    show "cell_kind (h' ! a) = cell_kind (h ! a)" using F assms(3) by (rule heap_frame_kind)
    show "\<exists>t t'. snapshot n h (VRef a) = Some t \<and> normalize_spec B t = Some t' \<and>
                 snapshot n h' (VRef a) = Some t'"
      using normalisation_result[OF assms(1,2) inh] v' by simp
  }
  {
    assume t: "cell_kind (h ! a) = KTuple"
    then obtain xs where ha: "h ! a = OTuple xs"
      by (cases "h ! a") (auto simp: cell_kind_def)
    show "h' ! a = h ! a" using F assms(3) t by (simp add: heap_frame_def)
    from assms(1) obtain n' where n: "n = Suc n'" by (cases n) auto
    let ?h = "h @ [OList xs]"
    have call: "to_json_dumpable B n' ?h (VRef (length h)) = Inr (h', v')"
      using assms(1,3) ha unfolding n by (simp add: deref_def)
    then show "v' = VRef (length h)"
      by (rule container_result) (simp_all add: cell_kind_def)
    have "list_all (in_heap h) (cell_values (OList xs))"
      using assms(2,3) ha by (auto simp: list_all_iff cell_values_def dest: wf_heap_cell)
    then have wf1: "wf_heap ?h"
      using assms(2) by (intro wf_heap_alloc) (simp_all add: distinct_keys_def)
    have "in_heap ?h (VRef (length h))" by (simp add: in_heap_def)
    with to_json_dumpable_sound[of B n'] call wf1 have "heap_frame B ?h h'"
      unfolding sound_call_def by blast
    then have "cell_kind (h' ! length h) = cell_kind (?h ! length h)"
      by (rule heap_frame_kind) simp
    then show "cell_kind (h' ! length h) = KList" by (simp add: cell_kind_def)
  }
qed

section \<open>The file system and the assertion\<close>





lemma check_noop: "path_exists fs p \<Longrightarrow> check_file_can_be_created p fs = Inr fs"
  by (simp add: check_file_can_be_created_def)




























text \<open>
  C9, amended.  When the expected file exists and its text is the text of the actual
  value, the method returns normally; no file is written, nothing is printed and no
  command is run.  What changes is the heap, which is the one the normalisation left,
  and the cached \<open>_fixture_dir\<close>.  For the actual value \<open>{"a": 1}\<close> and the file of the
  specification nothing changes at all (the witness).
\<close>

theorem matching_snapshot_passes:
  assumes "resolve_resultset E cf (fixture_dir w) = Inr (filename, method_name, noext, rs, fd)"
    and "path_exists (files w) rs"
    and "read_file rs (files w) = Inr expected"
    and "serialize_actual (env_builtins E) (recursion_limit E) (heap w) actual = (Inr expected, h)"
  shows "\<exists>w'. assert_equals_resultset E actual cf w = (None, w') \<and>
           files w' = files w \<and> stdout w' = stdout w \<and> system_calls w' = system_calls w \<and>
           heap w' = h \<and> fixture_dir w' = fd"
proof -
  have "load_expected rs (files w) = (Inr (Some expected), files w)"
    using assms(2,3) by (simp add: load_expected_def check_noop)
  then show ?thesis using assms(1,4) by (simp add: assert_equals_resultset_def Let_def)
qed

text \<open>
  C9, as stated, fails: with the expected file holding the text of \<open>["a"]\<close> and the actual
  value the list \<open>[b"a"]\<close>, the method returns normally and the caller's list has become
  \<open>["a"]\<close>.
\<close>

theorem matching_snapshot_mutates_actual:
  "fst (assert_equals_resultset example_env (VRef 0) None mutating_world) = None \<and>
   heap (snd (assert_equals_resultset example_env (VRef 0) None mutating_world)) \<noteq>
     heap mutating_world"
  by code_simp

lemma matching_resolve:
  "resolve_resultset example_env None (fixture_dir matching_world) =
     Inr (''/p/app/tests/unit/test_foo.py'', ''test_a'', ''test_foo'', example_resultset,
          Some ''/p/app/tests/fixtures'')"
  by code_simp

lemma matching_exists: "path_exists (files matching_world) example_resultset"
  by code_simp

lemma matching_read: "read_file example_resultset (files matching_world) = Inr example_text"
  by code_simp

lemma matching_serialize:
  "serialize_actual (env_builtins example_env) (recursion_limit example_env)
     (heap matching_world) (VRef 0) = (Inr example_text, heap matching_world)"
  by code_simp

theorem matching_snapshot_passes_witness:
  "resolve_resultset example_env None (fixture_dir matching_world) =
     Inr (''/p/app/tests/unit/test_foo.py'', ''test_a'', ''test_foo'', example_resultset,
          Some ''/p/app/tests/fixtures'') \<and>
   path_exists (files matching_world) example_resultset \<and>
   read_file example_resultset (files matching_world) = Inr example_text \<and>
   serialize_actual (env_builtins example_env) (recursion_limit example_env)
     (heap matching_world) (VRef 0) = (Inr example_text, heap matching_world) \<and>
   heap matching_world = [ODict [(VStr ''a'', VInt 1)]] \<and>
   assert_equals_resultset example_env (VRef 0) None matching_world = (None, matching_world)"
proof -
  from matching_snapshot_passes[OF matching_resolve matching_exists matching_read matching_serialize]
  obtain w' where w': "assert_equals_resultset example_env (VRef 0) None matching_world = (None, w')"
    "files w' = files matching_world" "stdout w' = stdout matching_world"
    "system_calls w' = system_calls matching_world" "heap w' = heap matching_world"
    "fixture_dir w' = Some ''/p/app/tests/fixtures''"
    by blast
  then have "w' = matching_world" by (cases w') (simp add: matching_world_def)
  with w'(1) show ?thesis
    using matching_resolve matching_exists matching_read matching_serialize
    by (simp add: matching_world_def)
qed

section \<open>The serialised text\<close>














section \<open>The properties on an example\<close>

lemma example_run:
  "to_json_dumpable example_builtins 5 example_heap (VRef 0) =
     Inr (example_heap_normalized, VRef 0)"
  by code_simp

lemma example_run_tuple:
  "to_json_dumpable example_builtins 5 example_heap (VRef 2) =
     Inr (example_heap @ [OList [VStr ''ab'', VNone]], VRef 3)"
  by code_simp

lemma example_wf: "wf_heap example_heap"
  by code_simp

lemma example_in_heap: "in_heap example_heap (VRef 0)"
  by (simp add: in_heap_def example_heap_def)

theorem normalisation_idempotent_witness:
  "to_json_dumpable example_builtins 5 example_heap (VRef 0) =
     Inr (example_heap_normalized, VRef 0) \<and>
   wf_heap example_heap \<and> in_heap example_heap (VRef 0) \<and>
   to_json_dumpable example_builtins 5 example_heap_normalized (VRef 0) =
     Inr (example_heap_normalized, VRef 0) \<and>
   serialize_actual example_builtins 5 example_heap_normalized (VRef 0) =
     serialize_actual example_builtins 5 example_heap (VRef 0)"
  using normalisation_idempotent[OF example_run example_wf example_in_heap]
    example_run example_wf example_in_heap
  by simp

lemma example_snapshot: "snapshot 4 example_heap (VRef 0) = Some example_tree"
  by code_simp

lemma example_normal_form:
  "normalize_spec example_builtins example_tree = Some example_tree_normalized"
  by code_simp

theorem normalisation_recurses_witness:
  "snapshot 4 example_heap (VRef 0) = Some example_tree \<and>
   normalize_spec example_builtins example_tree = Some example_tree_normalized \<and>
   wf_heap example_heap \<and> 2 * 4 \<le> (8 :: nat) \<and>
   (\<exists>h' v'. to_json_dumpable example_builtins 8 example_heap (VRef 0) = Inr (h', v') \<and>
            snapshot 4 h' v' = Some example_tree_normalized \<and>
            fully_normalized example_tree_normalized)"
proof -
  have b: "2 * 4 \<le> (8 :: nat)" by simp
  from normalisation_recurses[OF example_snapshot example_normal_form example_wf b]
  show ?thesis using example_snapshot example_normal_form example_wf
    by (simp only: simp_thms b) blast
qed

theorem normalisation_in_place_witness:
  "to_json_dumpable example_builtins 5 example_heap (VRef 0) =
     Inr (example_heap_normalized, VRef 0) \<and>
   to_json_dumpable example_builtins 5 example_heap (VRef 2) =
     Inr (example_heap @ [OList [VStr ''ab'', VNone]], VRef 3) \<and>
   wf_heap example_heap \<and> 0 < length example_heap \<and> 2 < length example_heap \<and>
   cell_kind (example_heap ! 0) \<noteq> KTuple \<and> cell_kind (example_heap ! 2) = KTuple \<and>
   cell_kind (example_heap_normalized ! 0) = cell_kind (example_heap ! 0) \<and>
   (\<exists>t t'. snapshot 5 example_heap (VRef 0) = Some t \<and>
           normalize_spec example_builtins t = Some t' \<and>
           snapshot 5 example_heap_normalized (VRef 0) = Some t') \<and>
   VRef 3 = (VRef (length example_heap) :: (int, int) pyval) \<and>
   (example_heap @ [OList [VStr ''ab'', VNone]]) ! 2 = example_heap ! 2 \<and>
   snd (serialize_actual example_builtins 5 example_heap (VRef 0)) = example_heap_normalized"
proof -
  have a0: "0 < length example_heap" and a2: "2 < length example_heap"
    by (simp_all add: example_heap_def)
  have k0: "cell_kind (example_heap ! 0) \<noteq> KTuple"
    and k2: "cell_kind (example_heap ! 2) = KTuple"
    by (simp_all add: example_heap_def cell_kind_def)
  note list_case = normalisation_in_place[OF example_run example_wf a0]
  note tuple_case = normalisation_in_place[OF example_run_tuple example_wf a2]
  from list_case k0 have
    "cell_kind (example_heap_normalized ! 0) = cell_kind (example_heap ! 0)"
    "\<exists>t t'. snapshot 5 example_heap (VRef 0) = Some t \<and>
           normalize_spec example_builtins t = Some t' \<and>
           snapshot 5 example_heap_normalized (VRef 0) = Some t'"
    "snd (serialize_actual example_builtins 5 example_heap (VRef 0)) = example_heap_normalized"
    by blast+
  moreover from tuple_case k2 have
    "VRef 3 = (VRef (length example_heap) :: (int, int) pyval)"
    "(example_heap @ [OList [VStr ''ab'', VNone]]) ! 2 = example_heap ! 2"
    by blast+
  ultimately show ?thesis
    using example_run example_run_tuple example_wf a0 a2 k0 k2 by blast
qed

end
